theory Spec2Isabelle
  imports Complex_Main "HOL-Library.Sublist"
begin

section \<open>Data model\<close>

text \<open>
  The conversation log of \<^verbatim>\<open>MeetingAgent\<close> is \<^verbatim>\<open>private messages: any[]\<close>. Its entries are
  the object literals the agent pushes (\<^verbatim>\<open>{role, content}\<close>,
  \<^verbatim>\<open>{role: "tool", tool_call_id, content}\<close>) and the message objects of the completion
  endpoint (\<^verbatim>\<open>{role: "assistant", content, tool_calls?}\<close>). A field that an object does
  not have reads as \<^verbatim>\<open>undefined\<close>: it is \<open>None\<close> here.

  \<open>addr\<close> is the identity of the object (its address). JavaScript's \<^verbatim>\<open>===\<close> on objects,
  and so \<^verbatim>\<open>Array.prototype.indexOf\<close>, compares identities, never field values.
\<close>

record tool_call =
  call_id :: string
  call_name :: string
  call_arguments :: string

record message =
  addr :: nat
  role :: string
  content :: "string option"
  tool_calls :: "tool_call list option"
  tool_call_id :: "string option"

definition systemTurn :: "nat \<Rightarrow> string \<Rightarrow> message" where
  "systemTurn r c =
     \<lparr>addr = r, role = ''system'', content = Some c, tool_calls = None, tool_call_id = None\<rparr>"

definition userTurn :: "nat \<Rightarrow> string \<Rightarrow> message" where
  "userTurn r c =
     \<lparr>addr = r, role = ''user'', content = Some c, tool_calls = None, tool_call_id = None\<rparr>"

definition assistantTurn :: "nat \<Rightarrow> string option \<Rightarrow> tool_call list option \<Rightarrow> message" where
  "assistantTurn r c calls =
     \<lparr>addr = r, role = ''assistant'', content = c, tool_calls = calls, tool_call_id = None\<rparr>"

definition toolResultTurn :: "nat \<Rightarrow> string \<Rightarrow> string \<Rightarrow> message" where
  "toolResultTurn r requestId c =
     \<lparr>addr = r, role = ''tool'', content = Some c, tool_calls = None,
      tool_call_id = Some requestId\<rparr>"

definition toolRequest :: "string \<Rightarrow> string \<Rightarrow> tool_call" where
  "toolRequest i n = \<lparr>call_id = i, call_name = n, call_arguments = ''{}''\<rparr>"

section \<open>Conversation store: validation\<close>

text \<open>
  \<^verbatim>\<open>prevMessage.tool_calls.find((call) => call.id === message.tool_call_id)\<close>
\<close>

definition matchingCall :: "message \<Rightarrow> tool_call list \<Rightarrow> tool_call option" where
  "matchingCall msg calls = find (\<lambda>call. Some (call_id call) = tool_call_id msg) calls"

text \<open>
  The backward scan \<^verbatim>\<open>for (let j = i - 1; j >= 0; j--)\<close> of \<^verbatim>\<open>validateMessages\<close>, which
  \<^verbatim>\<open>makeOpenAIRequest\<close> repeats word for word in its filter. The third argument is
  \<open>j + 1\<close>, the number of entries still to visit; the result is \<^verbatim>\<open>foundToolCall\<close>.
\<close>

fun precedingToolCall :: "message list \<Rightarrow> message \<Rightarrow> nat \<Rightarrow> bool" where
  "precedingToolCall msgs msg 0 = False"
| "precedingToolCall msgs msg (Suc j) =
     (if role (msgs ! j) = ''assistant'' \<and>
         (case tool_calls (msgs ! j) of
            None \<Rightarrow> False
          | Some calls \<Rightarrow> matchingCall msg calls \<noteq> None)
      then True
      else if role (msgs ! j) = ''user'' then False
      else precedingToolCall msgs msg j)"

text \<open>The outer loop \<^verbatim>\<open>for (let i = 0; i < messages.length; i++)\<close>, from index \<open>i\<close> on.\<close>

function validateFrom :: "message list \<Rightarrow> nat \<Rightarrow> bool" where
  "validateFrom msgs i =
     (if i < length msgs then
        (if role (msgs ! i) = ''tool'' \<and> \<not> precedingToolCall msgs (msgs ! i) i
         then False
         else validateFrom msgs (Suc i))
      else True)"
  by pat_completeness auto
termination
  by (relation "measure (\<lambda>(msgs, i). length msgs - i)") auto

declare validateFrom.simps [simp del]

definition validateMessages :: "message list \<Rightarrow> bool" where
  "validateMessages msgs = validateFrom msgs 0"

section \<open>Conversation store: repair\<close>

text \<open>
  \<^verbatim>\<open>this.messages.indexOf(msg)\<close>: the first index that holds the same object, \<open>None\<close> for
  the \<^verbatim>\<open>-1\<close> of an object that is not in the array.
\<close>

fun indexOf :: "message list \<Rightarrow> message \<Rightarrow> nat option" where
  "indexOf [] msg = None"
| "indexOf (m # ms) msg =
     (if addr m = addr msg then Some 0 else map_option Suc (indexOf ms msg))"

text \<open>
  The callback of \<^verbatim>\<open>this.messages.filter\<close> in \<^verbatim>\<open>makeOpenAIRequest\<close>. While the filter
  runs, \<^verbatim>\<open>this.messages\<close> is still the array being filtered. From index \<^verbatim>\<open>-1\<close> the
  loop body never runs and the callback returns \<^verbatim>\<open>false\<close>.
\<close>

definition keepMessage :: "message list \<Rightarrow> message \<Rightarrow> bool" where
  "keepMessage msgs msg =
     (if role msg = ''tool'' then
        (case indexOf msgs msg of
           None \<Rightarrow> False
         | Some messageIndex \<Rightarrow> precedingToolCall msgs msg messageIndex)
      else True)"

text \<open>
  The repair step that opens \<^verbatim>\<open>makeOpenAIRequest\<close>:
  \<^verbatim>\<open>if (!this.validateMessages()) this.messages = this.messages.filter(...)\<close>.
\<close>

definition repairMessages :: "message list \<Rightarrow> message list" where
  "repairMessages msgs =
     (if \<not> validateMessages msgs then filter (keepMessage msgs) msgs else msgs)"

section \<open>Conversation store: truncation\<close>

text \<open>\<^verbatim>\<open>prevMessage.tool_calls && prevMessage.tool_calls.length > 0\<close>\<close>

definition hasToolCalls :: "message \<Rightarrow> bool" where
  "hasToolCalls m = (case tool_calls m of None \<Rightarrow> False | Some calls \<Rightarrow> length calls > 0)"

text \<open>
  The loop \<^verbatim>\<open>while (truncateIndex > 0 && truncateIndex < messagesToKeep.length)\<close>; the
  result is the final \<^verbatim>\<open>truncateIndex\<close>.
\<close>

fun safeTruncateIndex :: "message list \<Rightarrow> nat \<Rightarrow> nat" where
  "safeTruncateIndex messagesToKeep 0 = 0"
| "safeTruncateIndex messagesToKeep (Suc k) =
     (if Suc k < length messagesToKeep then
        (if role (messagesToKeep ! Suc k) = ''tool'' \<or> hasToolCalls (messagesToKeep ! k)
         then safeTruncateIndex messagesToKeep k
         else Suc k)
      else Suc k)"

text \<open>
  \<^verbatim>\<open>truncateMessages\<close>. Past the guard the log has more than 15 entries, so
  \<^verbatim>\<open>messagesToKeep.length - 14\<close> is at least 1 and \<^verbatim>\<open>Math.max(0, truncateIndex)\<close> is the
  index itself: natural numbers lose nothing.
\<close>

definition truncateMessages :: "message list \<Rightarrow> message list" where
  "truncateMessages msgs =
     (if length msgs \<le> 15 then msgs
      else hd msgs #
           drop (safeTruncateIndex (tl msgs) (length (tl msgs) - 14)) (tl msgs))"

section \<open>Orphaned tool results\<close>

text \<open>
  The window of position \<open>i\<close>: the entries met scanning backward from \<open>i\<close> to the most
  recent user turn (exclusive) or the start of the log, nearest first.
\<close>

definition window :: "message list \<Rightarrow> nat \<Rightarrow> message list" where
  "window msgs i = takeWhile (\<lambda>m. role m \<noteq> ''user'') (rev (take i msgs))"

text \<open>\<open>issues msg prev\<close>: \<open>prev\<close> is an assistant turn with a tool request whose id is
  the request id of \<open>msg\<close>.\<close>

definition issues :: "message \<Rightarrow> message \<Rightarrow> bool" where
  "issues msg prev =
     (role prev = ''assistant'' \<and>
      (case tool_calls prev of
         None \<Rightarrow> False
       | Some calls \<Rightarrow> \<exists>call \<in> set calls. Some (call_id call) = tool_call_id msg))"

text \<open>
  Orphaned as the glossary has it and as the code checks it: a tool result with no
  issuing assistant turn in its window.
\<close>

definition orphaned :: "message list \<Rightarrow> nat \<Rightarrow> bool" where
  "orphaned msgs i =
     (role (msgs ! i) = ''tool'' \<and> filter (issues (msgs ! i)) (window msgs i) = [])"

text \<open>
  Orphaned as the validity invariant words it: a tool result is orphaned unless its
  window holds exactly one issuing assistant turn.
\<close>

definition orphanedExactlyOne :: "message list \<Rightarrow> nat \<Rightarrow> bool" where
  "orphanedExactlyOne msgs i =
     (role (msgs ! i) = ''tool'' \<and> length (filter (issues (msgs ! i)) (window msgs i)) \<noteq> 1)"

text \<open>A log contains an orphan, in either reading.\<close>

definition containsOrphan :: "message list \<Rightarrow> bool" where
  "containsOrphan msgs = (\<exists>i<length msgs. orphaned msgs i)"

definition containsOrphanExactlyOne :: "message list \<Rightarrow> bool" where
  "containsOrphanExactlyOne msgs = (\<exists>i<length msgs. orphanedExactlyOne msgs i)"

text \<open>A log in which one request id is issued by two assistant turns of the same window.\<close>

definition twiceIssuedLog :: "message list" where
  "twiceIssuedLog =
     [systemTurn 0 ''You are a helpful assistant'',
      userTurn 1 ''Alice: what time is it'',
      assistantTurn 2 None (Some [toolRequest ''t1'' ''get_time'']),
      assistantTurn 3 None (Some [toolRequest ''t1'' ''get_time'']),
      toolResultTurn 4 ''t1'' ''12:00'']"

text \<open>A log with one orphaned tool result, at index 2.\<close>

definition orphanLog :: "message list" where
  "orphanLog =
     [systemTurn 0 ''You are a helpful assistant'',
      userTurn 1 ''Alice: hello'',
      toolResultTurn 2 ''t9'' ''12:00'',
      assistantTurn 3 (Some ''Hi'') None]"

section \<open>Tool results paired with their batch\<close>

text \<open>
  The shape of the log the driver writes when its cycles run one after the other: an
  assistant turn with tool requests is followed at once by the results of its batch.
  \<open>batchIssuer earlier m\<close> scans backward from a tool result \<open>m\<close> over tool results only
  (\<open>earlier\<close> is the log before \<open>m\<close>, nearest entry first) and asks whether the first other
  entry is the assistant turn that issued the request of \<open>m\<close>.
\<close>

fun batchIssuer :: "message list \<Rightarrow> message \<Rightarrow> bool" where
  "batchIssuer [] m = False"
| "batchIssuer (p # earlier) m =
     (if role p = ''tool'' then batchIssuer earlier m else issues m p)"

fun wellPairedRev :: "message list \<Rightarrow> bool" where
  "wellPairedRev [] = True"
| "wellPairedRev (m # earlier) =
     ((if role m = ''tool'' then batchIssuer earlier m else True) \<and> wellPairedRev earlier)"

definition wellPaired :: "message list \<Rightarrow> bool" where
  "wellPaired msgs = wellPairedRev (rev msgs)"

text \<open>
  What is asked of truncation, word for word: no tool result of the log after is there
  without the assistant turn that issued its request, when the log before had that turn.
\<close>

definition issuedIn :: "message list \<Rightarrow> message \<Rightarrow> bool" where
  "issuedIn msgs m = (filter (issues m) msgs \<noteq> [])"

definition lostIssuer :: "message list \<Rightarrow> message list \<Rightarrow> message \<Rightarrow> bool" where
  "lostIssuer old new m = (role m = ''tool'' \<and> issuedIn old m \<and> \<not> issuedIn new m)"

definition keepsIssuers :: "message list \<Rightarrow> message list \<Rightarrow> bool" where
  "keepsIssuers old new = (filter (lostIssuer old new) new = [])"

text \<open>
  Seventeen entries; the result of \<open>t1\<close> stands two plain assistant turns after the turn
  that requested it, in the same window.
\<close>

definition scatteredLog :: "message list" where
  "scatteredLog =
     [systemTurn 0 ''You are a helpful assistant'',
      assistantTurn 1 None (Some [toolRequest ''t1'' ''get_time'']),
      assistantTurn 2 (Some ''One moment'') None,
      assistantTurn 3 (Some ''Still checking'') None,
      toolResultTurn 4 ''t1'' ''12:00''] @
     map (\<lambda>k. userTurn k ''Bob: ok'') [5..<17]"

text \<open>
  Seventeen entries, every batch in place; the cut point \<open>16 - 14 = 2\<close> of
  \<^verbatim>\<open>messagesToKeep\<close> lands on the first result of a batch of two.
\<close>

definition batchLog :: "message list" where
  "batchLog =
     [systemTurn 0 ''You are a helpful assistant'',
      userTurn 1 ''Alice: what time is it'',
      assistantTurn 2 None
        (Some [toolRequest ''t1'' ''get_time'', toolRequest ''t2'' ''speak_text'']),
      toolResultTurn 3 ''t1'' ''12:00'',
      toolResultTurn 4 ''t2'' ''ok''] @
     map (\<lambda>k. userTurn k ''Bob: ok'') [5..<17]"

section \<open>Transcript cursor of the agent\<close>

text \<open>
  \<^verbatim>\<open>interface TranscriptSegment { text; start; end; speaker: string | null }\<close>. Times are
  finite numbers: comparing them and taking their maximum is exact.
\<close>

record segment =
  seg_text :: string
  seg_start :: real
  seg_end :: real
  seg_speaker :: "string option"

text \<open>
  \<^verbatim>\<open>String.prototype.trim\<close> strips white space and line terminators at both ends; these
  are the ones among the code units below 256.
\<close>

definition isWhiteSpace :: "char \<Rightarrow> bool" where
  "isWhiteSpace c =
     (c \<in> set [CHR 0x09, CHR 0x0A, CHR 0x0B, CHR 0x0C, CHR 0x0D, CHR 0x20, CHR 0xA0])"

definition trim :: "string \<Rightarrow> string" where
  "trim s = rev (dropWhile isWhiteSpace (rev (dropWhile isWhiteSpace s)))"

text \<open>
  \<^verbatim>\<open>segments.filter((seg) => seg.end > this.lastProcessedTime && seg.text.trim().length > 0)\<close>
\<close>

definition newSegments :: "real \<Rightarrow> segment list \<Rightarrow> segment list" where
  "newSegments cursor segments =
     filter (\<lambda>seg. seg_end seg > cursor \<and> length (trim (seg_text seg)) > 0) segments"

text \<open>\<^verbatim>\<open>Math.max(x, ...xs)\<close>, on a list that is not empty.\<close>

definition mathMax :: "real \<Rightarrow> real list \<Rightarrow> real" where
  "mathMax x xs = fold max xs x"

text \<open>\<^verbatim>\<open>`${seg.speaker || "Unknown"}: ${seg.text}`\<close>, joined with new lines.\<close>

definition speakerOrUnknown :: "segment \<Rightarrow> string" where
  "speakerOrUnknown seg =
     (case seg_speaker seg of
        None \<Rightarrow> ''Unknown''
      | Some s \<Rightarrow> if s = [] then ''Unknown'' else s)"

fun join :: "string \<Rightarrow> string list \<Rightarrow> string" where
  "join sep [] = []"
| "join sep [x] = x"
| "join sep (x # y # ys) = x @ sep @ join sep (y # ys)"

definition transcriptText :: "segment list \<Rightarrow> string" where
  "transcriptText segs =
     join [CHR 0x0A] (map (\<lambda>seg. speakerOrUnknown seg @ '': '' @ seg_text seg) segs)"

section \<open>The agent and its collaborators\<close>

text \<open>
  A thrown value: whether it is an \<^verbatim>\<open>Error\<close> (\<^verbatim>\<open>error instanceof Error\<close>) and its
  \<^verbatim>\<open>message\<close>, if it has one.
\<close>

record js_error =
  instanceofError :: bool
  errorMessage :: "string option"

text \<open>\<^verbatim>\<open>response.choices[0].message\<close> of a completion: its content and its tool calls.\<close>

record completion =
  completion_content :: "string option"
  completion_tool_calls :: "tool_call list option"

text \<open>
  The two services the agent awaits. \<open>create e n msgs\<close> is the outcome of the \<open>n\<close>-th call
  of \<^verbatim>\<open>openai.chat.completions.create\<close>, made with the log \<open>msgs\<close>; \<open>callTool e n name args\<close>
  is the outcome of the \<open>n\<close>-th tool invocation, \<^verbatim>\<open>JSON.parse(args)\<close> followed by
  \<^verbatim>\<open>mcp.callTool\<close>, both inside the same \<^verbatim>\<open>try\<close>. \<open>Inl\<close> is a rejection or an exception.
  A tool's result is the JSON text of \<^verbatim>\<open>result.content\<close>, \<open>None\<close> when that content is falsy.

  Nothing keeps \<^verbatim>\<open>setInterval\<close> from starting a further cycle while one awaits its
  completion, and every cycle writes \<^verbatim>\<open>this.messages\<close>. \<open>meanwhile e n msgs\<close> is the log
  that the other cycles have made of \<open>msgs\<close> by the time the \<open>n\<close>-th request settles; it
  is \<open>msgs\<close> itself when no other cycle is in flight. A batch of tool calls is taken
  as this cycle writes it.
\<close>

record env =
  create :: "nat \<Rightarrow> message list \<Rightarrow> js_error + completion"
  callTool :: "nat \<Rightarrow> string \<Rightarrow> string \<Rightarrow> js_error + string option"
  meanwhile :: "nat \<Rightarrow> message list \<Rightarrow> message list"

text \<open>
  The fields of \<^verbatim>\<open>MeetingAgent\<close> that the cycle reads and writes, with three counters that
  the code does not have: the next fresh object identity, the number of completions
  requested and the number of tools invoked so far.
\<close>

record agent =
  lastProcessedTime :: real
  messages :: "message list"
  nextAddr :: nat
  modelCalls :: nat
  toolCalls :: nat

text \<open>\<^verbatim>\<open>this.messages.push(m)\<close>, \<open>m\<close> a new object.\<close>

definition push :: "agent \<Rightarrow> message \<Rightarrow> agent" where
  "push a m =
     a\<lparr>messages := messages a @ [m\<lparr>addr := nextAddr a\<rparr>], nextAddr := Suc (nextAddr a)\<rparr>"

definition userMessage :: "string \<Rightarrow> message" where
  "userMessage c =
     \<lparr>addr = 0, role = ''user'', content = Some c, tool_calls = None, tool_call_id = None\<rparr>"

definition responseMessage :: "completion \<Rightarrow> message" where
  "responseMessage c =
     \<lparr>addr = 0, role = ''assistant'', content = completion_content c,
      tool_calls = completion_tool_calls c, tool_call_id = None\<rparr>"

text \<open>\<^verbatim>\<open>JSON.stringify({ error: "Tool execution failed" })\<close>\<close>

definition toolErrorPayload :: string where
  \<open>toolErrorPayload = ''{"error":"Tool execution failed"}''\<close>

text \<open>\<^verbatim>\<open>JSON.stringify(result.content || "Tool executed successfully")\<close>\<close>

definition toolSuccessContent :: "string option \<Rightarrow> string" where
  \<open>toolSuccessContent result =
     (case result of None \<Rightarrow> ''"Tool executed successfully"'' | Some json \<Rightarrow> json)\<close>

text \<open>The tool message pushed by the \<^verbatim>\<open>try\<close> branch or by the \<^verbatim>\<open>catch (toolError)\<close> branch.\<close>

definition toolMessage :: "tool_call \<Rightarrow> js_error + string option \<Rightarrow> message" where
  "toolMessage toolCall outcome =
     \<lparr>addr = 0, role = ''tool'',
      content = Some (case outcome of
                        Inl toolError \<Rightarrow> toolErrorPayload
                      | Inr result \<Rightarrow> toolSuccessContent result),
      tool_calls = None, tool_call_id = Some (call_id toolCall)\<rparr>"

text \<open>
  \<^verbatim>\<open>for (const toolCall of message.tool_calls) { try { ... } catch (toolError) { ... } }\<close>:
  the loop of the first response and, word for word, the loop of the follow-up.
\<close>

fun executeToolCalls :: "env \<Rightarrow> agent \<Rightarrow> tool_call list \<Rightarrow> agent" where
  "executeToolCalls e a [] = a"
| "executeToolCalls e a (toolCall # rest) =
     executeToolCalls e
       (push (a\<lparr>toolCalls := Suc (toolCalls a)\<rparr>)
          (toolMessage toolCall
             (callTool e (toolCalls a) (call_name toolCall) (call_arguments toolCall))))
       rest"

text \<open>
  \<^verbatim>\<open>makeOpenAIRequest\<close>: repair the log if it is not valid, then submit it and await the
  outcome. When the outcome is there, the log is what the other cycles have made of it.
\<close>

definition makeOpenAIRequest :: "env \<Rightarrow> agent \<Rightarrow> (js_error + completion) \<times> agent" where
  "makeOpenAIRequest e a =
     (create e (modelCalls a) (repairMessages (messages a)),
      a\<lparr>messages := meanwhile e (modelCalls a) (repairMessages (messages a)),
        modelCalls := Suc (modelCalls a)\<rparr>)"

text \<open>
  The inner \<^verbatim>\<open>try { ... } catch (followUpError) { console.error(...) }\<close>: the follow-up
  request, its message, its tool calls. An error of the request is logged and dropped.
\<close>

definition followUp :: "env \<Rightarrow> agent \<Rightarrow> agent" where
  "followUp e a =
     (case makeOpenAIRequest e a of
        (Inl followUpError, a1) \<Rightarrow> a1
      | (Inr followUpResponse, a1) \<Rightarrow>
          (case completion_tool_calls followUpResponse of
             None \<Rightarrow> push a1 (responseMessage followUpResponse)
           | Some calls \<Rightarrow>
               executeToolCalls e (push a1 (responseMessage followUpResponse)) calls))"

text \<open>
  The body of the outer \<^verbatim>\<open>try\<close>, lines 316 to 401: the error that leaves it, if any, and
  the agent it leaves behind. \<^verbatim>\<open>if (message.tool_calls)\<close> holds for every array, the empty
  one too.
\<close>

definition respond :: "env \<Rightarrow> agent \<Rightarrow> js_error option \<times> agent" where
  "respond e a =
     (case makeOpenAIRequest e a of
        (Inl error, a1) \<Rightarrow> (Some error, a1)
      | (Inr response, a1) \<Rightarrow>
          (case completion_tool_calls response of
             None \<Rightarrow> (None, push a1 (responseMessage response))
           | Some calls \<Rightarrow>
               (None,
                followUp e (executeToolCalls e (push a1 (responseMessage response)) calls))))"

text \<open>\<^verbatim>\<open>error.message?.includes("messages with role 'tool'")\<close>\<close>

definition validationMarker :: string where
  "validationMarker = ''messages with role '' @ [CHR 0x27] @ ''tool'' @ [CHR 0x27]"

definition isValidationError :: "js_error \<Rightarrow> bool" where
  "isValidationError error =
     (instanceofError error \<and>
      (case errorMessage error of None \<Rightarrow> False | Some m \<Rightarrow> sublist validationMarker m))"

text \<open>
  The outer \<^verbatim>\<open>catch (error)\<close>, lines 402 to 417: it keeps the first and the last entry
  of the log as the log is when the handler runs.
\<close>

definition onError :: "js_error \<Rightarrow> agent \<Rightarrow> agent" where
  "onError error a =
     (if isValidationError error
      then a\<lparr>messages := [messages a ! 0, messages a ! (length (messages a) - 1)]\<rparr>
      else a)"

text \<open>
  \<^verbatim>\<open>processNewSegments\<close>, one cycle. Up to its first \<^verbatim>\<open>await\<close> the code runs in one step
  of the event loop: the cursor is read and written there, the user turn pushed, the log
  truncated, repaired and submitted. What the error handler finds is the log after the
  awaited request.
\<close>

definition processNewSegments :: "env \<Rightarrow> agent \<Rightarrow> segment list \<Rightarrow> agent" where
  "processNewSegments e a segments =
     (case newSegments (lastProcessedTime a) segments of
        [] \<Rightarrow> a
      | seg # segs \<Rightarrow>
          (case respond e
                  ((\<lambda>a2. a2\<lparr>messages := truncateMessages (messages a2)\<rparr>)
                     (push (a\<lparr>lastProcessedTime := mathMax (seg_end seg) (map seg_end segs)\<rparr>)
                        (userMessage (transcriptText (seg # segs))))) of
             (None, a4) \<Rightarrow> a4
           | (Some error, a4) \<Rightarrow> onError error a4))"

text \<open>The polls of a session, one after the other: what each of them emits.\<close>

fun agentPolls :: "env \<Rightarrow> agent \<Rightarrow> segment list list \<Rightarrow> segment list list" where
  "agentPolls e a [] = []"
| "agentPolls e a (segments # polls) =
     newSegments (lastProcessedTime a) segments #
     agentPolls e (processNewSegments e a segments) polls"

text \<open>The agent after the polls of a session.\<close>

fun agentAfter :: "env \<Rightarrow> agent \<Rightarrow> segment list list \<Rightarrow> agent" where
  "agentAfter e a [] = a"
| "agentAfter e a (segments # polls) = agentAfter e (processNewSegments e a segments) polls"

text \<open>A polling history in which the segment list only grows at its end.\<close>

fun growing :: "'a list list \<Rightarrow> bool" where
  "growing [] = True"
| "growing [p] = True"
| "growing (p # q # polls) = (prefix p q \<and> growing (q # polls))"

section \<open>Observations on a cycle\<close>

text \<open>
  The tool messages that a batch leaves in the log: for the request at position \<open>i\<close>, the
  outcome of tool invocation \<open>n + i\<close>, in the object \<open>k + i\<close>.
\<close>

fun toolResults :: "env \<Rightarrow> nat \<Rightarrow> nat \<Rightarrow> tool_call list \<Rightarrow> message list" where
  "toolResults e n k [] = []"
| "toolResults e n k (toolCall # rest) =
     (toolMessage toolCall
        (callTool e n (call_name toolCall) (call_arguments toolCall)))\<lparr>addr := k\<rparr> #
     toolResults e (Suc n) (Suc k) rest"






text \<open>An agent that has just heard Alice, and collaborators for the examples.\<close>

definition listeningAgent :: agent where
  "listeningAgent =
     \<lparr>lastProcessedTime = 0,
      messages = [systemTurn 0 ''You are a helpful assistant'',
                  userTurn 1 ''Alice: what time is it''],
      nextAddr = 2, modelCalls = 0, toolCalls = 0\<rparr>"

definition freshAgent :: agent where
  "freshAgent =
     \<lparr>lastProcessedTime = 0,
      messages = [systemTurn 0 ''You are a helpful assistant''],
      nextAddr = 1, modelCalls = 0, toolCalls = 0\<rparr>"


text \<open>Every completion is plain text; every tool succeeds.\<close>

definition plainEnv :: env where
  \<open>plainEnv =
     \<lparr>create = (\<lambda>n msgs. Inr \<lparr>completion_content = Some ''It is noon'',
                 completion_tool_calls = None\<rparr>),
      callTool = (\<lambda>n name args. Inr (Some ''"ok"'')),
      meanwhile = (\<lambda>n msgs. msgs)\<rparr>\<close>



text \<open>The first tool invocation fails, the others succeed.\<close>

definition failingToolEnv :: env where
  \<open>failingToolEnv =
     \<lparr>create = (\<lambda>n msgs. Inr \<lparr>completion_content = None,
                 completion_tool_calls =
                   Some [toolRequest ''t1'' ''get_time'', toolRequest ''t2'' ''speak_text'']\<rparr>),
      callTool = (\<lambda>n name args.
                   if n = 0 then Inl \<lparr>instanceofError = True, errorMessage = Some ''timeout''\<rparr>
                   else Inr (Some ''"ok"'')),
      meanwhile = (\<lambda>n msgs. msgs)\<rparr>\<close>







definition bobSpeaks :: "segment list" where
  "bobSpeaks =
     [\<lparr>seg_text = ''what time is it'', seg_start = 1, seg_end = 2, seg_speaker = Some ''Bob''\<rparr>]"

definition twoRequests :: "tool_call list" where
  "twoRequests = [toolRequest ''t1'' ''get_time'', toolRequest ''t2'' ''speak_text'']"

section \<open>The polling client\<close>

text \<open>
  The two entry scripts (\<^verbatim>\<open>client.ts\<close> and its near copy) keep their state in top-level
  variables: \<^verbatim>\<open>messages\<close>, \<^verbatim>\<open>debounceTimer\<close> and \<^verbatim>\<open>lastSegmentCount\<close>. Their segments are
  \<^verbatim>\<open>interface Segment { text; start; end; speaker: string; role: string }\<close>.
\<close>

record client_segment =
  cseg_text :: string
  cseg_start :: real
  cseg_end :: real
  cseg_speaker :: string
  cseg_role :: string

record client_message =
  cm_role :: string
  cm_content :: string

text \<open>
  Next to the three variables, the part of Node's timers that the scripts use:
  \<open>scheduled\<close> holds the pending timeouts (handle and due time, in milliseconds),
  \<open>nextHandle\<close> the next fresh handle, and \<open>triggers\<close> records every call of
  \<^verbatim>\<open>onDebounceTrigger\<close>, a model cycle, by the handle and due time of the timeout whose
  callback made it.
\<close>

record client =
  client_messages :: "client_message list"
  debounceTimer :: "nat option"
  lastSegmentCount :: nat
  scheduled :: "(nat \<times> nat) list"
  nextHandle :: nat
  triggers :: "(nat \<times> nat) list"

definition initialClient :: client where
  "initialClient =
     \<lparr>client_messages = [], debounceTimer = None, lastSegmentCount = 0,
      scheduled = [], nextHandle = 0, triggers = []\<rparr>"

text \<open>
  \<^verbatim>\<open>setTimeout(callback, delay)\<close> at time \<open>now\<close>: a new handle, due at \<open>now + delay\<close>.
  \<^verbatim>\<open>clearTimeout(h)\<close>: \<open>h\<close> leaves the schedule; a handle that has fired or was cleared
  is not there, and nothing happens.
\<close>

definition setTimeout :: "nat \<Rightarrow> nat \<Rightarrow> client \<Rightarrow> nat \<times> client" where
  "setTimeout now delay c =
     (nextHandle c,
      c\<lparr>scheduled := scheduled c @ [(nextHandle c, now + delay)],
        nextHandle := Suc (nextHandle c)\<rparr>)"

definition clearTimeout :: "nat \<Rightarrow> client \<Rightarrow> client" where
  "clearTimeout h c = c\<lparr>scheduled := filter (\<lambda>timer. fst timer \<noteq> h) (scheduled c)\<rparr>"

text \<open>
  The event loop at time \<open>now\<close>: every pending timeout that is due fires, once, and its
  callback calls \<^verbatim>\<open>onDebounceTrigger\<close>.
\<close>

definition runTimers :: "nat \<Rightarrow> client \<Rightarrow> client" where
  "runTimers now c =
     c\<lparr>scheduled := filter (\<lambda>timer. now < snd timer) (scheduled c),
       triggers := triggers c @ filter (\<lambda>timer. snd timer \<le> now) (scheduled c)\<rparr>"

text \<open>\<^verbatim>\<open>const DEBOUNCE_DELAY = 1000\<close> in \<^verbatim>\<open>client.ts\<close>, \<open>2500\<close> in its copy.\<close>

definition DEBOUNCE_DELAY :: nat where
  "DEBOUNCE_DELAY = 1000"

text \<open>\<^verbatim>\<open>{ role: "user", content: `${seg.speaker}:${seg.text}` }\<close>\<close>

definition segmentMessage :: "client_segment \<Rightarrow> client_message" where
  "segmentMessage seg =
     \<lparr>cm_role = ''user'', cm_content = cseg_speaker seg @ '':'' @ cseg_text seg\<rparr>"

text \<open>
  The body of the interval callback once the transcript is read, at time \<open>now\<close>, with the
  delay of the script: the new segments \<^verbatim>\<open>segments.slice(lastSegmentCount)\<close> are pushed,
  the pending timeout is cleared, a new one is set, the count is advanced.
\<close>

definition onPoll :: "nat \<Rightarrow> nat \<Rightarrow> client_segment list \<Rightarrow> client \<Rightarrow> client" where
  "onPoll delay now segments c =
     (if length segments > lastSegmentCount c then
        (\<lambda>(h, c3). c3\<lparr>debounceTimer := Some h, lastSegmentCount := length segments\<rparr>)
          (setTimeout now delay
             ((\<lambda>c1. case debounceTimer c1 of None \<Rightarrow> c1 | Some h \<Rightarrow> clearTimeout h c1)
                (c\<lparr>client_messages :=
                     client_messages c @
                     map segmentMessage (drop (lastSegmentCount c) segments)\<rparr>)))
      else c)"

text \<open>What a poll emits: the new segments, none when the list is no longer than before.\<close>

definition clientNewSegments :: "client \<Rightarrow> client_segment list \<Rightarrow> client_segment list" where
  "clientNewSegments c segments =
     (if length segments > lastSegmentCount c then drop (lastSegmentCount c) segments else [])"

text \<open>
  A session: polls at their times, in order. Before a poll runs, the timeouts that are
  due by then have fired.
\<close>

fun clientRun :: "nat \<Rightarrow> client \<Rightarrow> (nat \<times> client_segment list) list \<Rightarrow> client" where
  "clientRun delay c [] = c"
| "clientRun delay c ((now, segments) # polls) =
     clientRun delay (onPoll delay now segments (runTimers now c)) polls"

fun clientPolls ::
  "nat \<Rightarrow> client \<Rightarrow> (nat \<times> client_segment list) list \<Rightarrow> client_segment list list" where
  "clientPolls delay c [] = []"
| "clientPolls delay c ((now, segments) # polls) =
     clientNewSegments (runTimers now c) segments #
     clientPolls delay (onPoll delay now segments (runTimers now c)) polls"

text \<open>
  A rapid burst after an arrival at time \<open>t\<close> that left \<open>n\<close> segments: every poll comes
  at or after \<open>t\<close> and less than the delay after the last arrival; a poll with more than
  \<open>n\<close> segments is the next arrival.
\<close>

fun burst :: "nat \<Rightarrow> nat \<Rightarrow> nat \<Rightarrow> (nat \<times> 'a list) list \<Rightarrow> bool" where
  "burst delay t n [] = True"
| "burst delay t n ((now, segments) # polls) =
     (t \<le> now \<and> now < t + delay \<and>
      (if n < length segments then burst delay now (length segments) polls
       else burst delay t n polls))"

text \<open>The time of the last arrival of a burst.\<close>

fun lastArrival :: "nat \<Rightarrow> nat \<Rightarrow> (nat \<times> 'a list) list \<Rightarrow> nat" where
  "lastArrival t n [] = t"
| "lastArrival t n ((now, segments) # polls) =
     (if n < length segments then lastArrival now (length segments) polls
      else lastArrival t n polls)"

text \<open>
  Examples: three arrivals 400 ms apart, and transcripts ordered by end time that grow by
  a later segment, by one that ends with the segment before it, by a blank one.
\<close>

definition aliceSays :: "string \<Rightarrow> client_segment" where
  "aliceSays t =
     \<lparr>cseg_text = t, cseg_start = 0, cseg_end = 1, cseg_speaker = ''Alice'',
      cseg_role = ''participant''\<rparr>"

definition rapidPolls :: "(nat \<times> client_segment list) list" where
  "rapidPolls =
     [(5000, [aliceSays ''hello'']),
      (5400, [aliceSays ''hello'', aliceSays ''Bot'']),
      (5800, [aliceSays ''hello'', aliceSays ''Bot'', aliceSays ''are you there''])]"

definition segA :: segment where
  "segA = \<lparr>seg_text = ''hello'', seg_start = 3, seg_end = 5, seg_speaker = Some ''Alice''\<rparr>"

definition segTie :: segment where
  "segTie = \<lparr>seg_text = ''hi there'', seg_start = 4, seg_end = 5, seg_speaker = Some ''Bob''\<rparr>"

definition segBlank :: segment where
  "segBlank = \<lparr>seg_text = ''  '', seg_start = 6, seg_end = 7, seg_speaker = Some ''Bob''\<rparr>"

definition segC :: segment where
  "segC = \<lparr>seg_text = ''and you'', seg_start = 5, seg_end = 7, seg_speaker = None\<rparr>"

definition tiePolls :: "segment list list" where
  "tiePolls = [[segA], [segA, segTie]]"

definition blankPolls :: "segment list list" where
  "blankPolls = [[segA], [segA, segBlank]]"

definition orderedPolls :: "segment list list" where
  "orderedPolls = [[segA], [segA, segC]]"

section \<open>Validation finds the tool results with no issuing turn\<close>

lemma matchingCall_iff:
  "(matchingCall msg calls \<noteq> None) =
   (\<exists>call \<in> set calls. Some (call_id call) = tool_call_id msg)"
  by (auto simp: matchingCall_def find_None_iff)

lemma issues_iff:
  "issues msg prev =
   (role prev = ''assistant'' \<and>
    (case tool_calls prev of None \<Rightarrow> False | Some calls \<Rightarrow> matchingCall msg calls \<noteq> None))"
  by (simp only: issues_def matchingCall_iff)

lemma user_not_issues: "role prev = ''user'' \<Longrightarrow> \<not> issues msg prev"
  by (simp add: issues_def)

lemma window_Suc:
  "j < length msgs \<Longrightarrow>
   window msgs (Suc j) =
     (if role (msgs ! j) = ''user'' then [] else msgs ! j # window msgs j)"
  by (simp add: window_def take_Suc_conv_app_nth)

text \<open>The backward scan succeeds exactly when the window holds an issuing turn.\<close>

lemma precedingToolCall_window:
  "j \<le> length msgs \<Longrightarrow>
   precedingToolCall msgs msg j = (filter (issues msg) (window msgs j) \<noteq> [])"
proof (induction j)
  case 0
  show ?case by (simp add: window_def)
next
  case (Suc j)
  then have j: "j < length msgs"
    and IH: "precedingToolCall msgs msg j = (filter (issues msg) (window msgs j) \<noteq> [])"
    by simp_all
  show ?case
  proof (cases "issues msg (msgs ! j)")
    case True
    then have "role (msgs ! j) \<noteq> ''user''" using user_not_issues by blast
    with True j show ?thesis
      using issues_iff [of msg "msgs ! j"] by (simp add: window_Suc)
  next
    case False
    with j IH show ?thesis
      using issues_iff [of msg "msgs ! j"] by (auto simp: window_Suc)
  qed
qed

lemma validateFrom_iff:
  "validateFrom msgs i =
   (\<forall>k. i \<le> k \<and> k < length msgs \<longrightarrow>
        \<not> (role (msgs ! k) = ''tool'' \<and> \<not> precedingToolCall msgs (msgs ! k) k))"
proof (induction msgs i rule: validateFrom.induct)
  case (1 msgs i)
  show ?case
  proof (cases "i < length msgs")
    case False
    then show ?thesis by (subst validateFrom.simps) auto
  next
    case True
    show ?thesis
    proof (cases "role (msgs ! i) = ''tool'' \<and> \<not> precedingToolCall msgs (msgs ! i) i")
      case bad: True
      with True have "\<not> validateFrom msgs i" by (subst validateFrom.simps) simp
      moreover from bad True have "\<exists>k. i \<le> k \<and> k < length msgs \<and>
          role (msgs ! k) = ''tool'' \<and> \<not> precedingToolCall msgs (msgs ! k) k"
        by (intro exI [of _ i]) simp
      ultimately show ?thesis by blast
    next
      case ok: False
      with True have "validateFrom msgs i = validateFrom msgs (Suc i)"
        by (subst validateFrom.simps) auto
      also have "\<dots> = (\<forall>k. Suc i \<le> k \<and> k < length msgs \<longrightarrow>
          \<not> (role (msgs ! k) = ''tool'' \<and> \<not> precedingToolCall msgs (msgs ! k) k))"
        using "1.IH" True ok by blast
      also have "\<dots> = (\<forall>k. i \<le> k \<and> k < length msgs \<longrightarrow>
          \<not> (role (msgs ! k) = ''tool'' \<and> \<not> precedingToolCall msgs (msgs ! k) k))"
        using ok by (metis Suc_leD Suc_leI le_neq_implies_less)
      finally show ?thesis .
    qed
  qed
qed

lemma validateMessages_no_orphan:
  "validateMessages msgs = (\<forall>i<length msgs. \<not> orphaned msgs i)"
  by (auto simp: validateMessages_def validateFrom_iff orphaned_def precedingToolCall_window)

lemmas turn_defs =
  systemTurn_def userTurn_def assistantTurn_def toolResultTurn_def toolRequest_def

text \<open>
  C1, as amended. \<^verbatim>\<open>validateMessages\<close> returns false if and only if the log contains a
  tool result whose window (back to the most recent user turn, exclusive, or to the start
  of the log) holds no assistant turn with a tool request of its id: the scan looks for
  at least one issuing turn, not for exactly one.
\<close>

theorem validateMessages_false_iff_orphan:
  "(validateMessages msgs = False) = containsOrphan msgs"
  by (simp add: validateMessages_no_orphan containsOrphan_def)

theorem validateMessages_false_iff_orphan_witness:
  "validateMessages orphanLog = False \<and> orphaned orphanLog 2"
proof -
  have o: "orphaned orphanLog 2"
    by (simp add: orphaned_def orphanLog_def window_def issues_def turn_defs)
  have "(2::nat) < length orphanLog" by (simp add: orphanLog_def)
  with o have "containsOrphan orphanLog" unfolding containsOrphan_def by blast
  with validateMessages_false_iff_orphan [of orphanLog] o show ?thesis by simp
qed

text \<open>
  C1 as stated fails: with the request id \<open>t1\<close> issued by two assistant turns of the
  window, the tool result at index 4 is orphaned under "exactly one", and
  \<^verbatim>\<open>validateMessages\<close> returns true.
\<close>

theorem validateMessages_exactly_one_counterexample:
  "\<not> ((validateMessages twiceIssuedLog = False) = containsOrphanExactlyOne twiceIssuedLog)"
proof -
  have v: "validateMessages twiceIssuedLog" by code_simp
  have "orphanedExactlyOne twiceIssuedLog 4"
    by (simp add: orphanedExactlyOne_def twiceIssuedLog_def window_def issues_def turn_defs)
  moreover have "(4::nat) < length twiceIssuedLog" by (simp add: twiceIssuedLog_def)
  ultimately have "containsOrphanExactlyOne twiceIssuedLog"
    unfolding containsOrphanExactlyOne_def by blast
  with v show ?thesis by simp
qed

section \<open>Repair removes the orphaned tool results\<close>

lemma indexOf_less:
  "indexOf msgs msg = Some k \<Longrightarrow> k < length msgs \<and> addr (msgs ! k) = addr msg"
proof (induction msgs arbitrary: k)
  case Nil
  then show ?case by simp
next
  case (Cons m ms)
  then show ?case by (auto split: if_splits)
qed

lemma indexOf_nth:
  "distinct (map addr msgs) \<Longrightarrow> i < length msgs \<Longrightarrow> indexOf msgs (msgs ! i) = Some i"
proof (induction msgs arbitrary: i)
  case Nil
  then show ?case by simp
next
  case (Cons m ms)
  show ?case
  proof (cases i)
    case 0
    then show ?thesis by simp
  next
    case (Suc k)
    with Cons.prems have k: "k < length ms" and d: "distinct (map addr ms)"
      and nin: "addr m \<notin> addr ` set ms" by simp_all
    from k have "ms ! k \<in> set ms" by simp
    with nin have "addr m \<noteq> addr (ms ! k)" by blast
    with Suc Cons.IH [OF d k] show ?thesis by simp
  qed
qed

lemma keepMessage_nth:
  assumes "distinct (map addr msgs)" and "i < length msgs"
  shows "keepMessage msgs (msgs ! i) = (\<not> orphaned msgs i)"
  using assms
  by (simp add: keepMessage_def indexOf_nth orphaned_def precedingToolCall_window)

lemma not_keepMessage_tool: "\<not> keepMessage msgs x \<Longrightarrow> role x = ''tool''"
  by (simp add: keepMessage_def split: if_splits)

lemma filter_keepMessage_nths:
  assumes "distinct (map addr msgs)"
  shows "filter (keepMessage msgs) msgs = nths msgs {i. i < length msgs \<and> \<not> orphaned msgs i}"
proof -
  have "{i. i < length msgs \<and> keepMessage msgs (msgs ! i)} =
        {i. i < length msgs \<and> \<not> orphaned msgs i}"
    using keepMessage_nth [OF assms] by blast
  then show ?thesis by (simp add: filter_eq_nths)
qed

lemma nths_all: "nths xs {i. i < length xs} = xs"
  using filter_eq_nths [of "\<lambda>_. True" xs] by simp

lemma takeWhile_filter_keep:
  "(\<And>x. \<not> P x \<Longrightarrow> K x) \<Longrightarrow> takeWhile P (filter K xs) = filter K (takeWhile P xs)"
  by (induction xs) auto

lemma window_filter:
  assumes "\<And>x. \<not> K x \<Longrightarrow> role x = ''tool''"
  shows "filter (issues m) (takeWhile (\<lambda>x. role x \<noteq> ''user'') (rev (filter K xs))) =
         filter (issues m) (takeWhile (\<lambda>x. role x \<noteq> ''user'') (rev xs))"
proof -
  have keepU: "K x" if "\<not> role x \<noteq> ''user''" for x
  proof (rule ccontr)
    assume "\<not> K x"
    then have "role x = ''tool''" by (rule assms)
    with that show False by simp
  qed
  have keepA: "K x" if "issues m x" for x
  proof (rule ccontr)
    assume "\<not> K x"
    then have "role x = ''tool''" by (rule assms)
    with that show False by (simp add: issues_def)
  qed
  have "takeWhile (\<lambda>x. role x \<noteq> ''user'') (rev (filter K xs)) =
        filter K (takeWhile (\<lambda>x. role x \<noteq> ''user'') (rev xs))"
    by (simp add: rev_filter takeWhile_filter_keep [OF keepU])
  moreover have "filter (issues m) (filter K ys) = filter (issues m) ys" for ys
    using keepA by (induction ys) auto
  ultimately show ?thesis by simp
qed

lemma orphaned_append:
  "i < length xs \<Longrightarrow> orphaned (xs @ ys) i = orphaned xs i"
  by (simp add: orphaned_def window_def nth_append)

lemma orphaned_last:
  "orphaned (xs @ [m]) (length xs) =
   (role m = ''tool'' \<and> filter (issues m) (takeWhile (\<lambda>x. role x \<noteq> ''user'') (rev xs)) = [])"
  by (simp add: orphaned_def window_def)

lemma validateMessages_snoc:
  "validateMessages (xs @ [m]) =
   (validateMessages xs \<and>
    (role m = ''tool'' \<longrightarrow>
       filter (issues m) (takeWhile (\<lambda>x. role x \<noteq> ''user'') (rev xs)) \<noteq> []))"
proof -
  have "(\<forall>i<length (xs @ [m]). \<not> orphaned (xs @ [m]) i) =
        ((\<forall>i<length xs. \<not> orphaned (xs @ [m]) i) \<and> \<not> orphaned (xs @ [m]) (length xs))"
    by (auto simp: less_Suc_eq)
  also have "\<dots> = ((\<forall>i<length xs. \<not> orphaned xs i) \<and> \<not> orphaned (xs @ [m]) (length xs))"
    by (simp add: orphaned_append)
  finally show ?thesis
    by (simp add: validateMessages_no_orphan orphaned_last)
qed

lemma filter_keepMessage_valid_prefix:
  assumes d: "distinct (map addr msgs)"
  shows "msgs = pre @ suf \<Longrightarrow> validateMessages (filter (keepMessage msgs) pre)"
proof (induction pre arbitrary: suf rule: rev_induct)
  case Nil
  show ?case by (simp add: validateMessages_no_orphan)
next
  case (snoc m pre)
  then have split: "msgs = pre @ (m # suf)" by simp
  have IH: "validateMessages (filter (keepMessage msgs) pre)"
    using snoc.IH [OF split] .
  show ?case
  proof (cases "keepMessage msgs m")
    case False
    with IH show ?thesis by simp
  next
    case True
    have len: "length pre < length msgs" using split by simp
    have m: "msgs ! length pre = m" using split by simp
    have "role m = ''tool'' \<Longrightarrow>
          filter (issues m) (takeWhile (\<lambda>x. role x \<noteq> ''user'') (rev pre)) \<noteq> []"
    proof -
      assume t: "role m = ''tool''"
      from True keepMessage_nth [OF d len] m have "\<not> orphaned msgs (length pre)" by simp
      with t m split show ?thesis
        by (simp add: orphaned_def window_def)
    qed
    then have "role m = ''tool'' \<Longrightarrow>
          filter (issues m) (takeWhile (\<lambda>x. role x \<noteq> ''user'')
             (rev (filter (keepMessage msgs) pre))) \<noteq> []"
      using window_filter [of "keepMessage msgs" m pre] not_keepMessage_tool by metis
    with True IH show ?thesis by (simp add: validateMessages_snoc)
  qed
qed

lemma filter_keepMessage_valid:
  "distinct (map addr msgs) \<Longrightarrow> validateMessages (filter (keepMessage msgs) msgs)"
  using filter_keepMessage_valid_prefix [of msgs msgs "[]"] by simp

lemma repairMessages_valid:
  "distinct (map addr msgs) \<Longrightarrow> validateMessages (repairMessages msgs)"
  by (simp add: repairMessages_def filter_keepMessage_valid)

text \<open>
  C2, as amended. With orphaned read as "no issuing assistant turn in the window", the
  repair step of \<^verbatim>\<open>makeOpenAIRequest\<close> keeps exactly the entries that are not orphaned, in
  their order; the repaired log passes \<^verbatim>\<open>validateMessages\<close>; repairing twice is repairing
  once; and a valid log is left as it is. The entries of the log are distinct objects.
\<close>

theorem repairMessages_removes_orphans:
  assumes "distinct (map addr msgs)"
  shows "repairMessages msgs = nths msgs {i. i < length msgs \<and> \<not> orphaned msgs i} \<and>
         validateMessages (repairMessages msgs) \<and>
         repairMessages (repairMessages msgs) = repairMessages msgs \<and>
         (validateMessages msgs \<longrightarrow> repairMessages msgs = msgs)"
proof -
  have v: "validateMessages (repairMessages msgs)"
    using assms by (rule repairMessages_valid)
  have "repairMessages msgs = nths msgs {i. i < length msgs \<and> \<not> orphaned msgs i}"
  proof (cases "validateMessages msgs")
    case True
    then have "{i. i < length msgs \<and> \<not> orphaned msgs i} = {i. i < length msgs}"
      by (auto simp: validateMessages_no_orphan)
    with True show ?thesis by (simp add: repairMessages_def nths_all)
  next
    case False
    then show ?thesis by (simp add: repairMessages_def filter_keepMessage_nths [OF assms])
  qed
  moreover have "repairMessages (repairMessages msgs) = repairMessages msgs"
    using v by (simp add: repairMessages_def [of "repairMessages msgs"])
  moreover have "validateMessages msgs \<longrightarrow> repairMessages msgs = msgs"
    by (simp add: repairMessages_def)
  ultimately show ?thesis using v by blast
qed

theorem repairMessages_removes_orphans_witness:
  "distinct (map addr orphanLog) \<and>
   \<not> validateMessages orphanLog \<and>
   repairMessages orphanLog =
     [systemTurn 0 ''You are a helpful assistant'', userTurn 1 ''Alice: hello'',
      assistantTurn 3 (Some ''Hi'') None] \<and>
   repairMessages orphanLog = nths orphanLog {i. i < length orphanLog \<and> \<not> orphaned orphanLog i} \<and>
   validateMessages (repairMessages orphanLog) \<and>
   repairMessages (repairMessages orphanLog) = repairMessages orphanLog"
proof -
  have d: "distinct (map addr orphanLog)" by (simp add: orphanLog_def turn_defs)
  have nv: "\<not> validateMessages orphanLog" by code_simp
  have r: "repairMessages orphanLog =
     [systemTurn 0 ''You are a helpful assistant'', userTurn 1 ''Alice: hello'',
      assistantTurn 3 (Some ''Hi'') None]" by code_simp
  from repairMessages_removes_orphans [OF d] d nv r show ?thesis by blast
qed

text \<open>
  C2 as stated fails under the validity invariant's "exactly one": the tool result at
  index 4 of this log is orphaned in that reading, and the repair step removes nothing.
\<close>

theorem repairMessages_exactly_one_counterexample:
  "containsOrphanExactlyOne twiceIssuedLog \<and> repairMessages twiceIssuedLog = twiceIssuedLog"
proof -
  have "orphanedExactlyOne twiceIssuedLog 4"
    by (simp add: orphanedExactlyOne_def twiceIssuedLog_def window_def issues_def turn_defs)
  moreover have "(4::nat) < length twiceIssuedLog" by (simp add: twiceIssuedLog_def)
  ultimately have "containsOrphanExactlyOne twiceIssuedLog"
    unfolding containsOrphanExactlyOne_def by blast
  moreover have "repairMessages twiceIssuedLog = twiceIssuedLog" by code_simp
  ultimately show ?thesis by simp
qed

section \<open>Truncation\<close>

lemma safeTruncateIndex_le: "safeTruncateIndex t k \<le> k"
  by (induction k) (auto intro: le_SucI)

lemma safeTruncateIndex_boundary:
  "k < length t \<Longrightarrow>
   safeTruncateIndex t k = 0 \<or>
   (role (t ! safeTruncateIndex t k) \<noteq> ''tool'' \<and>
    \<not> hasToolCalls (t ! (safeTruncateIndex t k - 1)))"
  by (induction k) auto

lemma truncateMessages_short: "length msgs \<le> 15 \<Longrightarrow> truncateMessages msgs = msgs"
  by (simp add: truncateMessages_def)

lemma truncateMessages_long:
  assumes "15 < length msgs"
  shows "\<exists>c. c \<le> length msgs - 15 \<and>
             (c = 0 \<or> role (tl msgs ! c) \<noteq> ''tool'') \<and>
             truncateMessages msgs = hd msgs # drop c (tl msgs)"
proof -
  let ?t = "tl msgs"
  let ?k = "length ?t - 14"
  let ?c = "safeTruncateIndex ?t ?k"
  have k: "?k < length ?t" using assms by simp
  have "?c \<le> length msgs - 15" using safeTruncateIndex_le [of ?t ?k] by simp
  moreover have "?c = 0 \<or> role (?t ! ?c) \<noteq> ''tool''"
    using safeTruncateIndex_boundary [OF k] by blast
  moreover have "truncateMessages msgs = hd msgs # drop ?c ?t"
    using assms by (simp add: truncateMessages_def)
  ultimately show ?thesis by blast
qed

lemma truncateMessages_hd:
  "msgs \<noteq> [] \<Longrightarrow> truncateMessages msgs \<noteq> [] \<and> hd (truncateMessages msgs) = hd msgs"
  by (simp add: truncateMessages_def)


subsection \<open>Batches stay whole\<close>

lemma batchIssuer_issuedIn: "batchIssuer earlier m \<Longrightarrow> issuedIn earlier m"
  by (induction earlier) (auto simp: issuedIn_def split: if_splits)

lemma batchIssuer_window:
  "batchIssuer earlier m \<Longrightarrow>
   filter (issues m) (takeWhile (\<lambda>x. role x \<noteq> ''user'') earlier) \<noteq> []"
proof (induction earlier)
  case Nil
  then show ?case by simp
next
  case (Cons p earlier)
  show ?case
  proof (cases "role p = ''tool''")
    case True
    with Cons show ?thesis by simp
  next
    case False
    with Cons.prems have i: "issues m p" by simp
    then have "role p \<noteq> ''user''" using user_not_issues by blast
    with i show ?thesis by simp
  qed
qed

lemma wellPaired_valid: "wellPaired msgs \<Longrightarrow> validateMessages msgs"
  unfolding wellPaired_def
proof (induction msgs rule: rev_induct)
  case Nil
  show ?case by (simp add: validateMessages_no_orphan)
next
  case (snoc m msgs)
  then show ?case
    by (auto simp: validateMessages_snoc dest: batchIssuer_window split: if_splits)
qed

lemma wellPairedRev_issuedIn:
  "wellPairedRev l \<Longrightarrow> m \<in> set l \<Longrightarrow> role m = ''tool'' \<Longrightarrow> issuedIn l m"
proof (induction l)
  case Nil
  then show ?case by simp
next
  case (Cons x l)
  show ?case
  proof (cases "m = x")
    case True
    with Cons.prems have "batchIssuer l m" by simp
    then have "issuedIn l m" by (rule batchIssuer_issuedIn)
    then show ?thesis by (simp add: issuedIn_def)
  next
    case False
    with Cons have "issuedIn l m" by simp
    then show ?thesis by (simp add: issuedIn_def)
  qed
qed

lemma issuedIn_rev: "issuedIn (rev l) m = issuedIn l m"
  by (simp add: issuedIn_def rev_filter [symmetric])

lemma wellPaired_keepsIssuers: "wellPaired new \<Longrightarrow> keepsIssuers old new"
proof -
  assume w: "wellPaired new"
  have "\<not> lostIssuer old new m" if "m \<in> set new" for m
  proof
    assume l: "lostIssuer old new m"
    then have "role m = ''tool''" by (simp add: lostIssuer_def)
    with w that have "issuedIn (rev new) m"
      using wellPairedRev_issuedIn [of "rev new" m] by (simp add: wellPaired_def)
    with l show False by (simp add: lostIssuer_def issuedIn_rev)
  qed
  then show ?thesis by (simp add: keepsIssuers_def filter_empty_conv)
qed

lemma wellPairedRev_suffix: "wellPairedRev (a @ b) \<Longrightarrow> wellPairedRev b"
  by (induction a) auto

lemma batchIssuer_stops:
  "a \<noteq> [] \<Longrightarrow> role (last a) \<noteq> ''tool'' \<Longrightarrow> batchIssuer (a @ b) m = batchIssuer a m"
proof (induction a)
  case Nil
  then show ?case by simp
next
  case (Cons p a)
  show ?case
  proof (cases "a = []")
    case True
    with Cons.prems show ?thesis by simp
  next
    case False
    with Cons.prems have "role (last a) \<noteq> ''tool''" by simp
    with Cons.IH False have "batchIssuer (a @ b) m = batchIssuer a m" by blast
    then show ?thesis by simp
  qed
qed

lemma wellPairedRev_prefix:
  "wellPairedRev (a @ b) \<Longrightarrow> a \<noteq> [] \<Longrightarrow> role (last a) \<noteq> ''tool'' \<Longrightarrow> wellPairedRev a"
proof (induction a)
  case Nil
  then show ?case by simp
next
  case (Cons m a)
  show ?case
  proof (cases "a = []")
    case True
    with Cons.prems show ?thesis by simp
  next
    case False
    with Cons.prems have l: "role (last a) \<noteq> ''tool''" by simp
    from Cons.prems have "wellPairedRev (a @ b)" by simp
    with Cons.IH False l have "wellPairedRev a" by blast
    moreover have "batchIssuer (a @ b) m = batchIssuer a m"
      using False l by (rule batchIssuer_stops)
    ultimately show ?thesis using Cons.prems(1) by (auto split: if_splits)
  qed
qed

lemma wellPairedRev_append:
  "wellPairedRev a \<Longrightarrow> wellPairedRev b \<Longrightarrow> a \<noteq> [] \<Longrightarrow> role (last a) \<noteq> ''tool'' \<Longrightarrow>
   wellPairedRev (a @ b)"
proof (induction a)
  case Nil
  then show ?case by simp
next
  case (Cons m a)
  show ?case
  proof (cases "a = []")
    case True
    with Cons.prems show ?thesis by simp
  next
    case False
    with Cons.prems have l: "role (last a) \<noteq> ''tool''" by simp
    with Cons False show ?thesis by (simp add: batchIssuer_stops)
  qed
qed

lemma truncateMessages_wellPaired:
  assumes w: "wellPaired msgs"
  shows "wellPaired (truncateMessages msgs)"
proof (cases "15 < length msgs")
  case False
  with w show ?thesis by (simp add: truncateMessages_short)
next
  case True
  from truncateMessages_long [OF True] obtain c where
    c: "c \<le> length msgs - 15" and b: "c = 0 \<or> role (tl msgs ! c) \<noteq> ''tool''"
    and eq: "truncateMessages msgs = hd msgs # drop c (tl msgs)"
    by blast
  from True obtain s t where st: "msgs = s # t" by (cases msgs) auto
  show ?thesis
  proof (cases "c = 0")
    case True
    with eq st w show ?thesis by simp
  next
    case False
    with b st have nt: "role (t ! c) \<noteq> ''tool''" by simp
    from c st True have clt: "c < length t" by simp
    let ?a = "rev (drop c t)"
    have ne: "?a \<noteq> []" using clt by simp
    have la: "last ?a = t ! c" using clt by (simp add: last_rev hd_drop_conv_nth)
    have "rev msgs = ?a @ (rev (take c t) @ [s])"
      using st by (simp add: rev_append [symmetric] del: rev_append)
    with w have all: "wellPairedRev (?a @ (rev (take c t) @ [s]))"
      by (simp add: wellPaired_def)
    have wa: "wellPairedRev ?a"
      using wellPairedRev_prefix [OF all ne] la nt by simp
    have "wellPairedRev ((?a @ rev (take c t)) @ [s])" using all by simp
    then have ws: "wellPairedRev [s]" by (rule wellPairedRev_suffix)
    have "wellPairedRev (?a @ [s])"
      using wellPairedRev_append [OF wa ws ne] la nt by simp
    with eq st show ?thesis by (simp add: wellPaired_def)
  qed
qed

text \<open>
  C3, as amended. In a log whose tool results stand in their batches (each follows, over
  tool results only, the assistant turn that issued its request), truncation keeps the
  batches whole: the result has the same shape, loses no issuing turn and passes
  \<^verbatim>\<open>validateMessages\<close>. For every log, the first entry (the system turn) stays first, and
  the log is changed only when it has more than \<open>1 + 14\<close> entries.
\<close>

theorem truncateMessages_keeps_batches:
  "(wellPaired msgs \<longrightarrow>
      wellPaired (truncateMessages msgs) \<and> keepsIssuers msgs (truncateMessages msgs) \<and>
      validateMessages (truncateMessages msgs)) \<and>
   (msgs \<noteq> [] \<longrightarrow> truncateMessages msgs \<noteq> [] \<and> hd (truncateMessages msgs) = hd msgs) \<and>
   (truncateMessages msgs \<noteq> msgs \<longrightarrow> 1 + 14 < length msgs)"
proof -
  have "wellPaired (truncateMessages msgs) \<and> keepsIssuers msgs (truncateMessages msgs) \<and>
        validateMessages (truncateMessages msgs)" if w: "wellPaired msgs"
  proof -
    have t: "wellPaired (truncateMessages msgs)" using w by (rule truncateMessages_wellPaired)
    from t have "keepsIssuers msgs (truncateMessages msgs)" by (rule wellPaired_keepsIssuers)
    moreover from t have "validateMessages (truncateMessages msgs)" by (rule wellPaired_valid)
    ultimately show ?thesis using t by blast
  qed
  moreover have "truncateMessages msgs \<noteq> msgs \<longrightarrow> 1 + 14 < length msgs"
  proof
    assume ne: "truncateMessages msgs \<noteq> msgs"
    have "\<not> length msgs \<le> 15" using ne truncateMessages_short [of msgs] by blast
    then show "1 + 14 < length msgs" by simp
  qed
  ultimately show ?thesis using truncateMessages_hd [of msgs] by blast
qed

theorem truncateMessages_keeps_batches_witness:
  "wellPaired batchLog \<and> batchLog \<noteq> [] \<and> truncateMessages batchLog \<noteq> batchLog \<and>
   wellPaired (truncateMessages batchLog) \<and>
   keepsIssuers batchLog (truncateMessages batchLog) \<and>
   validateMessages (truncateMessages batchLog) \<and>
   hd (truncateMessages batchLog) = systemTurn 0 ''You are a helpful assistant'' \<and>
   1 + 14 < length batchLog"
proof -
  have w: "wellPaired batchLog" by code_simp
  have n: "batchLog \<noteq> []" by (simp add: batchLog_def)
  have c: "truncateMessages batchLog \<noteq> batchLog" by code_simp
  have h: "hd batchLog = systemTurn 0 ''You are a helpful assistant''"
    by (simp add: batchLog_def)
  from truncateMessages_keeps_batches [of batchLog] w n c h show ?thesis by simp
qed

text \<open>
  C3 as stated fails: this log passes \<^verbatim>\<open>validateMessages\<close>, and truncation cuts between the
  assistant turn that requested \<open>t1\<close> and the result of \<open>t1\<close>, which stays in the log.
\<close>

theorem truncateMessages_scattered_counterexample:
  "validateMessages scatteredLog \<and>
   \<not> keepsIssuers scatteredLog (truncateMessages scatteredLog) \<and>
   \<not> validateMessages (truncateMessages scatteredLog)"
proof -
  have "validateMessages scatteredLog" by code_simp
  moreover have "\<not> keepsIssuers scatteredLog (truncateMessages scatteredLog)" by code_simp
  moreover have "\<not> validateMessages (truncateMessages scatteredLog)" by code_simp
  ultimately show ?thesis by blast
qed

text \<open>
  C10. A log of more than \<open>1 + 14\<close> entries is cut at an index of \<^verbatim>\<open>messagesToKeep\<close> that
  is at most the naive one, \<open>length - 15\<close>: the last 14 entries are a suffix of the
  result, which has at least 15 entries, and more when the cut moves (as it does in
  \<open>batchLog\<close>, left with 16).
\<close>

theorem truncateMessages_keeps_last_14:
  "15 < length msgs \<Longrightarrow>
     (\<exists>c. c \<le> length msgs - 15 \<and> truncateMessages msgs = hd msgs # drop c (tl msgs)) \<and>
     suffix (drop (length msgs - 14) msgs) (truncateMessages msgs) \<and>
     15 \<le> length (truncateMessages msgs) \<and>
     15 < length (truncateMessages batchLog)"
proof -
  assume long: "15 < length msgs"
  from truncateMessages_long [OF long] obtain c where
    c: "c \<le> length msgs - 15" and eq: "truncateMessages msgs = hd msgs # drop c (tl msgs)"
    by blast
  from long obtain s t where st: "msgs = s # t" by (cases msgs) auto
  let ?k = "length t - 14"
  have ck: "c \<le> ?k" using c st by simp
  have "drop (length msgs - 14) msgs = drop ?k t"
    using st long by (simp add: drop_Cons')
  also have "\<dots> = drop (?k - c) (drop c t)"
  proof -
    have "?k - c + c = ?k" using ck by (rule le_add_diff_inverse2)
    then show ?thesis by (simp only: drop_drop)
  qed
  finally have "suffix (drop (length msgs - 14) msgs) (drop c t)"
    by (simp only: suffix_drop)
  then have "suffix (drop (length msgs - 14) msgs) (truncateMessages msgs)"
    using eq st by (simp add: suffix_ConsI)
  moreover have "15 \<le> length (truncateMessages msgs)"
    using eq st ck long by simp
  moreover have "15 < length (truncateMessages batchLog)" by code_simp
  ultimately show ?thesis using c eq by blast
qed

theorem truncateMessages_keeps_last_14_witness:
  "15 < length batchLog \<and>
   suffix (drop (length batchLog - 14) batchLog) (truncateMessages batchLog) \<and>
   length (truncateMessages batchLog) = 16"
proof -
  have l: "15 < length batchLog" by (simp add: batchLog_def)
  have "length (truncateMessages batchLog) = 16" by code_simp
  with truncateMessages_keeps_last_14 [OF l] l show ?thesis by blast
qed

section \<open>The tool-call driver\<close>

lemma push_fields [simp]:
  "messages (push a m) = messages a @ [m\<lparr>addr := nextAddr a\<rparr>]"
  "lastProcessedTime (push a m) = lastProcessedTime a"
  "nextAddr (push a m) = Suc (nextAddr a)"
  "modelCalls (push a m) = modelCalls a"
  "toolCalls (push a m) = toolCalls a"
  by (simp_all add: push_def)

lemma executeToolCalls_fields [simp]:
  "lastProcessedTime (executeToolCalls e a calls) = lastProcessedTime a"
  "modelCalls (executeToolCalls e a calls) = modelCalls a"
  "toolCalls (executeToolCalls e a calls) = toolCalls a + length calls"
  "nextAddr (executeToolCalls e a calls) = nextAddr a + length calls"
  by (induction calls arbitrary: a; simp)+

lemma executeToolCalls_messages:
  "messages (executeToolCalls e a calls) =
   messages a @ toolResults e (toolCalls a) (nextAddr a) calls"
  by (induction calls arbitrary: a) simp_all

lemma length_toolResults [simp]: "length (toolResults e n k calls) = length calls"
  by (induction calls arbitrary: n k) simp_all

lemma toolResults_nth:
  "i < length calls \<Longrightarrow>
   toolResults e n k calls ! i =
     (toolMessage (calls ! i)
        (callTool e (n + i) (call_name (calls ! i)) (call_arguments (calls ! i))))\<lparr>addr := k + i\<rparr>"
proof (induction calls arbitrary: n k i)
  case Nil
  then show ?case by simp
next
  case (Cons c calls)
  show ?case
  proof (cases i)
    case 0
    then show ?thesis by simp
  next
    case (Suc j)
    with Cons.prems have "j < length calls" by simp
    from Cons.IH [OF this, of "Suc n" "Suc k"] Suc show ?thesis by simp
  qed
qed

lemma toolMessage_fields [simp]:
  "role (toolMessage c outcome) = ''tool''"
  "tool_call_id (toolMessage c outcome) = Some (call_id c)"
  "tool_calls (toolMessage c outcome) = None"
  "content (toolMessage c (Inl err)) = Some toolErrorPayload"
  "content (toolMessage c (Inr result)) = Some (toolSuccessContent result)"
  by (simp_all add: toolMessage_def)


lemma makeOpenAIRequest_fields [simp]:
  "fst (makeOpenAIRequest e a) = create e (modelCalls a) (repairMessages (messages a))"
  "messages (snd (makeOpenAIRequest e a)) =
     meanwhile e (modelCalls a) (repairMessages (messages a))"
  "modelCalls (snd (makeOpenAIRequest e a)) = Suc (modelCalls a)"
  "toolCalls (snd (makeOpenAIRequest e a)) = toolCalls a"
  "lastProcessedTime (snd (makeOpenAIRequest e a)) = lastProcessedTime a"
  "nextAddr (snd (makeOpenAIRequest e a)) = nextAddr a"
  by (simp_all add: makeOpenAIRequest_def)

lemma followUp_unfold:
  "followUp e a =
     (case create e (modelCalls a) (repairMessages (messages a)) of
        Inl followUpError \<Rightarrow> snd (makeOpenAIRequest e a)
      | Inr r \<Rightarrow>
          (case completion_tool_calls r of
             None \<Rightarrow> push (snd (makeOpenAIRequest e a)) (responseMessage r)
           | Some calls \<Rightarrow>
               executeToolCalls e (push (snd (makeOpenAIRequest e a)) (responseMessage r)) calls))"
  by (simp add: followUp_def makeOpenAIRequest_def split: sum.splits option.splits)

lemma respond_unfold:
  "respond e a =
     (case create e (modelCalls a) (repairMessages (messages a)) of
        Inl error \<Rightarrow> (Some error, snd (makeOpenAIRequest e a))
      | Inr r \<Rightarrow>
          (case completion_tool_calls r of
             None \<Rightarrow> (None, push (snd (makeOpenAIRequest e a)) (responseMessage r))
           | Some calls \<Rightarrow>
               (None, followUp e
                  (executeToolCalls e
                     (push (snd (makeOpenAIRequest e a)) (responseMessage r)) calls))))"
  by (simp add: respond_def makeOpenAIRequest_def split: sum.splits option.splits)

lemma followUp_fields [simp]:
  "modelCalls (followUp e a) = Suc (modelCalls a)"
  "lastProcessedTime (followUp e a) = lastProcessedTime a"
  by (simp_all add: followUp_unfold split: sum.splits option.splits)

lemma respond_lastProcessedTime [simp]:
  "lastProcessedTime (snd (respond e a)) = lastProcessedTime a"
  by (simp add: respond_unfold split: sum.splits option.splits)


lemma respond_batch_then_followUp:
  "create e (modelCalls a) (repairMessages (messages a)) = Inr r \<Longrightarrow>
   completion_tool_calls r = Some calls \<Longrightarrow>
   fst (respond e a) = None \<and> modelCalls (snd (respond e a)) = modelCalls a + 2"
  by (simp add: respond_unfold)

lemma responseMessage_fields [simp]:
  "role (responseMessage r) = ''assistant''"
  "tool_calls (responseMessage r) = completion_tool_calls r"
  by (simp_all add: responseMessage_def)



text \<open>
  C5. A batch of tool calls leaves one tool message per request, in the order of the
  requests, each with the id of its request; the message of a failed invocation carries
  the error payload where a success carries the result; every request is invoked,
  whatever the outcomes before it, and when the batch is that of the first response the
  follow-up request is made after it.
\<close>

theorem executeToolCalls_failure_is_result:
  "length (messages (executeToolCalls e a calls)) = length (messages a) + length calls \<and>
   take (length (messages a)) (messages (executeToolCalls e a calls)) = messages a \<and>
   toolCalls (executeToolCalls e a calls) = toolCalls a + length calls \<and>
   (\<forall>i<length calls.
      role (messages (executeToolCalls e a calls) ! (length (messages a) + i)) = ''tool'' \<and>
      tool_call_id (messages (executeToolCalls e a calls) ! (length (messages a) + i)) =
        Some (call_id (calls ! i)) \<and>
      content (messages (executeToolCalls e a calls) ! (length (messages a) + i)) =
        Some (case callTool e (toolCalls a + i) (call_name (calls ! i))
                     (call_arguments (calls ! i)) of
                Inl toolError \<Rightarrow> toolErrorPayload
              | Inr result \<Rightarrow> toolSuccessContent result)) \<and>
   (\<forall>r. create e (modelCalls a) (repairMessages (messages a)) = Inr r \<and>
        completion_tool_calls r = Some calls \<longrightarrow>
        fst (respond e a) = None \<and> modelCalls (snd (respond e a)) = modelCalls a + 2)"
proof -
  have "\<forall>i<length calls.
      role (messages (executeToolCalls e a calls) ! (length (messages a) + i)) = ''tool'' \<and>
      tool_call_id (messages (executeToolCalls e a calls) ! (length (messages a) + i)) =
        Some (call_id (calls ! i)) \<and>
      content (messages (executeToolCalls e a calls) ! (length (messages a) + i)) =
        Some (case callTool e (toolCalls a + i) (call_name (calls ! i))
                     (call_arguments (calls ! i)) of
                Inl toolError \<Rightarrow> toolErrorPayload
              | Inr result \<Rightarrow> toolSuccessContent result)"
    by (simp add: executeToolCalls_messages toolResults_nth toolMessage_def)
  moreover have "\<forall>r. create e (modelCalls a) (repairMessages (messages a)) = Inr r \<and>
        completion_tool_calls r = Some calls \<longrightarrow>
        fst (respond e a) = None \<and> modelCalls (snd (respond e a)) = modelCalls a + 2"
    using respond_batch_then_followUp by blast
  ultimately show ?thesis by (simp add: executeToolCalls_messages)
qed

theorem executeToolCalls_failure_is_result_witness:
  "isl (callTool failingToolEnv 0 ''get_time'' ''{}'') \<and>
   length (messages (executeToolCalls failingToolEnv listeningAgent twoRequests)) = 4 \<and>
   toolCalls (executeToolCalls failingToolEnv listeningAgent twoRequests) = 2 \<and>
   role (messages (executeToolCalls failingToolEnv listeningAgent twoRequests) ! 2) = ''tool'' \<and>
   tool_call_id (messages (executeToolCalls failingToolEnv listeningAgent twoRequests) ! 2) =
     Some ''t1'' \<and>
   content (messages (executeToolCalls failingToolEnv listeningAgent twoRequests) ! 2) =
     Some toolErrorPayload \<and>
   tool_call_id (messages (executeToolCalls failingToolEnv listeningAgent twoRequests) ! 3) =
     Some ''t2''"
proof -
  note T = executeToolCalls_failure_is_result [of failingToolEnv listeningAgent twoRequests]
  have f: "callTool failingToolEnv 0 ''get_time'' ''{}'' =
           Inl \<lparr>instanceofError = True, errorMessage = Some ''timeout''\<rparr>"
    by (simp add: failingToolEnv_def)
  have l: "length (messages listeningAgent) = 2" "toolCalls listeningAgent = 0"
    "length twoRequests = 2"
    by (simp_all add: listeningAgent_def twoRequests_def)
  have c: "twoRequests ! 0 = toolRequest ''t1'' ''get_time''"
    "twoRequests ! 1 = toolRequest ''t2'' ''speak_text''"
    by (simp_all add: twoRequests_def)
  from T l have all: "\<forall>i<2.
      role (messages (executeToolCalls failingToolEnv listeningAgent twoRequests) ! (2 + i)) = ''tool'' \<and>
      tool_call_id (messages (executeToolCalls failingToolEnv listeningAgent twoRequests) ! (2 + i)) =
        Some (call_id (twoRequests ! i)) \<and>
      content (messages (executeToolCalls failingToolEnv listeningAgent twoRequests) ! (2 + i)) =
        Some (case callTool failingToolEnv (0 + i) (call_name (twoRequests ! i))
                     (call_arguments (twoRequests ! i)) of
                Inl toolError \<Rightarrow> toolErrorPayload
              | Inr result \<Rightarrow> toolSuccessContent result)"
    by simp
  from all have "role (messages (executeToolCalls failingToolEnv listeningAgent twoRequests) ! (2 + 0)) = ''tool'' \<and>
      tool_call_id (messages (executeToolCalls failingToolEnv listeningAgent twoRequests) ! (2 + 0)) =
        Some (call_id (twoRequests ! 0)) \<and>
      content (messages (executeToolCalls failingToolEnv listeningAgent twoRequests) ! (2 + 0)) =
        Some (case callTool failingToolEnv (0 + 0) (call_name (twoRequests ! 0))
                     (call_arguments (twoRequests ! 0)) of
                Inl toolError \<Rightarrow> toolErrorPayload
              | Inr result \<Rightarrow> toolSuccessContent result)"
    by (rule allE [of _ 0]) simp
  then have zero: "role (messages (executeToolCalls failingToolEnv listeningAgent twoRequests) ! 2) = ''tool'' \<and>
      tool_call_id (messages (executeToolCalls failingToolEnv listeningAgent twoRequests) ! 2) = Some ''t1'' \<and>
      content (messages (executeToolCalls failingToolEnv listeningAgent twoRequests) ! 2) =
        Some toolErrorPayload"
    using f by (simp add: c toolRequest_def)
  from all have "tool_call_id (messages (executeToolCalls failingToolEnv listeningAgent twoRequests) ! (2 + 1)) =
        Some (call_id (twoRequests ! 1))"
    by (rule allE [of _ 1]) simp
  then have one: "tool_call_id (messages (executeToolCalls failingToolEnv listeningAgent twoRequests) ! 3) =
        Some ''t2''"
    by (simp add: twoRequests_def toolRequest_def)
  from T l have "length (messages (executeToolCalls failingToolEnv listeningAgent twoRequests)) = 4"
    "toolCalls (executeToolCalls failingToolEnv listeningAgent twoRequests) = 2"
    by simp_all
  with zero one f show ?thesis by simp
qed




section \<open>The cycle: cursor and error handler\<close>




lemma onError_lastProcessedTime [simp]:
  "lastProcessedTime (onError error a) = lastProcessedTime a"
  by (simp add: onError_def)

lemma processNewSegments_none:
  "newSegments (lastProcessedTime a) segments = [] \<Longrightarrow> processNewSegments e a segments = a"
  by (simp add: processNewSegments_def)

lemma processNewSegments_some:
  "newSegments (lastProcessedTime a) segments = seg # segs \<Longrightarrow>
   processNewSegments e a segments =
     (case respond e
             ((push (a\<lparr>lastProcessedTime := mathMax (seg_end seg) (map seg_end segs)\<rparr>)
                 (userMessage (transcriptText (seg # segs))))
              \<lparr>messages := truncateMessages
                 (messages a @ [(userMessage (transcriptText (seg # segs)))\<lparr>addr := nextAddr a\<rparr>])\<rparr>) of
        (None, a4) \<Rightarrow> a4
      | (Some error, a4) \<Rightarrow> onError error a4)"
  by (simp add: processNewSegments_def)

lemma processNewSegments_lastProcessedTime:
  "lastProcessedTime (processNewSegments e a segments) =
     (case newSegments (lastProcessedTime a) segments of
        [] \<Rightarrow> lastProcessedTime a
      | seg # segs \<Rightarrow> mathMax (seg_end seg) (map seg_end segs))"
proof (cases "newSegments (lastProcessedTime a) segments")
  case Nil
  then show ?thesis by (simp add: processNewSegments_none)
next
  case (Cons seg segs)
  let ?a3 = "(push (a\<lparr>lastProcessedTime := mathMax (seg_end seg) (map seg_end segs)\<rparr>)
                 (userMessage (transcriptText (seg # segs))))
              \<lparr>messages := truncateMessages
                 (messages a @ [(userMessage (transcriptText (seg # segs)))\<lparr>addr := nextAddr a\<rparr>])\<rparr>"
  have "lastProcessedTime (snd (respond e ?a3)) = mathMax (seg_end seg) (map seg_end segs)"
    by simp
  then have "lastProcessedTime (case respond e ?a3 of
        (None, a4) \<Rightarrow> a4 | (Some error, a4) \<Rightarrow> onError error a4) =
      mathMax (seg_end seg) (map seg_end segs)"
    by (cases "respond e ?a3") (auto split: option.splits)
  with Cons show ?thesis by (simp add: processNewSegments_some)
qed

lemma mathMax_Max: "mathMax x xs = Max (set (x # xs))"
  by (simp only: mathMax_def Max.set_eq_fold)

text \<open>
  C8. A poll emits exactly the segments that end after the cursor and whose trimmed text
  is not empty; when it emits any, the cursor becomes the greatest end time among them;
  when none qualifies, the agent is left as it was.
\<close>

theorem processNewSegments_cursor:
  "set (newSegments (lastProcessedTime a) segments) =
     {seg \<in> set segments. lastProcessedTime a < seg_end seg \<and> trim (seg_text seg) \<noteq> []} \<and>
   (newSegments (lastProcessedTime a) segments \<noteq> [] \<longrightarrow>
      lastProcessedTime (processNewSegments e a segments) =
        Max (seg_end ` set (newSegments (lastProcessedTime a) segments))) \<and>
   (newSegments (lastProcessedTime a) segments = [] \<longrightarrow>
      processNewSegments e a segments = a)"
proof -
  have "set (newSegments (lastProcessedTime a) segments) =
     {seg \<in> set segments. lastProcessedTime a < seg_end seg \<and> trim (seg_text seg) \<noteq> []}"
    by (auto simp: newSegments_def)
  moreover have "lastProcessedTime (processNewSegments e a segments) =
        Max (seg_end ` set (newSegments (lastProcessedTime a) segments))"
    if "newSegments (lastProcessedTime a) segments \<noteq> []"
  proof -
    from that obtain seg segs where n: "newSegments (lastProcessedTime a) segments = seg # segs"
      by (cases "newSegments (lastProcessedTime a) segments") auto
    then show ?thesis
      by (simp add: processNewSegments_lastProcessedTime mathMax_Max)
  qed
  ultimately show ?thesis using processNewSegments_none by blast
qed

theorem processNewSegments_cursor_witness:
  "newSegments (lastProcessedTime freshAgent) bobSpeaks = bobSpeaks \<and> bobSpeaks \<noteq> [] \<and>
   lastProcessedTime (processNewSegments plainEnv freshAgent bobSpeaks) = 2 \<and>
   newSegments 2 bobSpeaks = [] \<and>
   processNewSegments plainEnv (freshAgent\<lparr>lastProcessedTime := 2\<rparr>) bobSpeaks =
     freshAgent\<lparr>lastProcessedTime := 2\<rparr>"
proof -
  have n: "newSegments (lastProcessedTime freshAgent) bobSpeaks = bobSpeaks"
    by (simp add: newSegments_def bobSpeaks_def freshAgent_def trim_def isWhiteSpace_def)
  have b: "bobSpeaks \<noteq> []" by (simp add: bobSpeaks_def)
  have m: "Max (seg_end ` set bobSpeaks) = 2" by (simp add: bobSpeaks_def)
  have z: "newSegments 2 bobSpeaks = []" by (simp add: newSegments_def bobSpeaks_def)
  from processNewSegments_cursor [of freshAgent bobSpeaks plainEnv] n b m
  have one: "lastProcessedTime (processNewSegments plainEnv freshAgent bobSpeaks) = 2" by simp
  from processNewSegments_cursor [of "freshAgent\<lparr>lastProcessedTime := 2\<rparr>" bobSpeaks plainEnv] z
  have two: "processNewSegments plainEnv (freshAgent\<lparr>lastProcessedTime := 2\<rparr>) bobSpeaks =
     freshAgent\<lparr>lastProcessedTime := 2\<rparr>" by simp
  from n b one z two show ?thesis by simp
qed



lemma userMessage_role [simp]: "role ((userMessage c)\<lparr>addr := k\<rparr>) = ''user''"
  by (simp add: userMessage_def)







section \<open>Debounce\<close>

lemma runTimers_not_due:
  "scheduled c = [(h, due)] \<Longrightarrow> now < due \<Longrightarrow> runTimers now c = c"
  by (simp add: runTimers_def)

lemma runTimers_due:
  "scheduled c = [(h, due)] \<Longrightarrow> due \<le> now \<Longrightarrow>
   triggers (runTimers now c) = triggers c @ [(h, due)] \<and> scheduled (runTimers now c) = []"
  by (simp add: runTimers_def)

lemma runTimers_fields [simp]:
  "lastSegmentCount (runTimers now c) = lastSegmentCount c"
  "debounceTimer (runTimers now c) = debounceTimer c"
  "nextHandle (runTimers now c) = nextHandle c"
  by (simp_all add: runTimers_def)

lemma onPoll_no_arrival:
  "\<not> lastSegmentCount c < length segments \<Longrightarrow> onPoll delay now segments c = c"
  by (simp add: onPoll_def)

lemma onPoll_lastSegmentCount:
  "lastSegmentCount (onPoll delay now segments c) =
     (if lastSegmentCount c < length segments then length segments else lastSegmentCount c)"
  by (simp add: onPoll_def setTimeout_def clearTimeout_def split: option.splits)

lemma onPoll_first_arrival:
  "lastSegmentCount c < length segments \<Longrightarrow> scheduled c = [] \<Longrightarrow>
   scheduled (onPoll delay now segments c) = [(nextHandle c, now + delay)] \<and>
   debounceTimer (onPoll delay now segments c) = Some (nextHandle c) \<and>
   triggers (onPoll delay now segments c) = triggers c"
  by (simp add: onPoll_def setTimeout_def clearTimeout_def split: option.splits)

lemma onPoll_arrival:
  "lastSegmentCount c < length segments \<Longrightarrow> scheduled c = [(h, due)] \<Longrightarrow>
   debounceTimer c = Some h \<Longrightarrow>
   scheduled (onPoll delay now segments c) = [(nextHandle c, now + delay)] \<and>
   debounceTimer (onPoll delay now segments c) = Some (nextHandle c) \<and>
   triggers (onPoll delay now segments c) = triggers c"
  by (simp add: onPoll_def setTimeout_def clearTimeout_def)

lemma onPoll_cancels:
  "lastSegmentCount c < length segments \<Longrightarrow> debounceTimer c = Some h \<Longrightarrow>
   h \<noteq> nextHandle c \<Longrightarrow> h \<notin> fst ` set (scheduled (onPoll delay now segments c))"
  by (auto simp: onPoll_def setTimeout_def clearTimeout_def)

lemma burst_run:
  "scheduled c = [(h, t + delay)] \<Longrightarrow> debounceTimer c = Some h \<Longrightarrow>
   burst delay t (lastSegmentCount c) polls \<Longrightarrow>
   triggers (clientRun delay c polls) = triggers c \<and>
   (\<exists>h'. scheduled (clientRun delay c polls) =
            [(h', lastArrival t (lastSegmentCount c) polls + delay)] \<and>
         debounceTimer (clientRun delay c polls) = Some h')"
proof (induction polls arbitrary: c h t)
  case Nil
  then show ?case by simp
next
  case (Cons poll polls)
  obtain now segments where poll: "poll = (now, segments)" by (cases poll)
  from Cons.prems(3) poll have now: "t \<le> now" "now < t + delay" by simp_all
  have idle: "runTimers now c = c"
    using runTimers_not_due [OF Cons.prems(1) now(2)] .
  show ?case
  proof (cases "lastSegmentCount c < length segments")
    case True
    let ?c = "onPoll delay now segments c"
    from onPoll_arrival [OF True Cons.prems(1) Cons.prems(2), of delay now]
    have s: "scheduled ?c = [(nextHandle c, now + delay)]"
      and d: "debounceTimer ?c = Some (nextHandle c)" and tr: "triggers ?c = triggers c"
      by simp_all
    have n: "lastSegmentCount ?c = length segments"
      using True by (simp add: onPoll_lastSegmentCount)
    from Cons.prems(3) poll True have b: "burst delay now (lastSegmentCount ?c) polls"
      by (simp add: n)
    from Cons.IH [OF s d b] tr n True poll idle show ?thesis by simp
  next
    case False
    then have same: "onPoll delay now segments c = c" by (rule onPoll_no_arrival)
    from Cons.prems(3) poll False have b: "burst delay t (lastSegmentCount c) polls" by simp
    from Cons.IH [OF Cons.prems(1) Cons.prems(2) b] False poll idle same show ?thesis by simp
  qed
qed

text \<open>
  C9. In a rapid burst, every poll coming less than the delay after the last arrival,
  no timer fires while the burst lasts; when it is over exactly one timer is pending, due
  one delay after the last arrival, and it alone triggers a model cycle once that time
  has come. An arrival takes the timer that was pending off the schedule before it sets
  a new one.
\<close>

theorem debounce_last_timer_fires:
  "(0 < length segments \<and> burst delay t (length segments) polls \<longrightarrow>
      triggers (clientRun delay initialClient ((t, segments) # polls)) = [] \<and>
      (\<exists>h. scheduled (clientRun delay initialClient ((t, segments) # polls)) =
              [(h, lastArrival t (length segments) polls + delay)] \<and>
           (\<forall>horizon. lastArrival t (length segments) polls + delay \<le> horizon \<longrightarrow>
              triggers (runTimers horizon
                 (clientRun delay initialClient ((t, segments) # polls))) =
                [(h, lastArrival t (length segments) polls + delay)] \<and>
              scheduled (runTimers horizon
                 (clientRun delay initialClient ((t, segments) # polls))) = []))) \<and>
   (lastSegmentCount c < length segments \<and> debounceTimer c = Some h0 \<and> h0 \<noteq> nextHandle c \<longrightarrow>
      h0 \<notin> fst ` set (scheduled (onPoll delay now segments c)))"
proof -
  have "triggers (clientRun delay initialClient ((t, segments) # polls)) = [] \<and>
      (\<exists>h. scheduled (clientRun delay initialClient ((t, segments) # polls)) =
              [(h, lastArrival t (length segments) polls + delay)] \<and>
           (\<forall>horizon. lastArrival t (length segments) polls + delay \<le> horizon \<longrightarrow>
              triggers (runTimers horizon
                 (clientRun delay initialClient ((t, segments) # polls))) =
                [(h, lastArrival t (length segments) polls + delay)] \<and>
              scheduled (runTimers horizon
                 (clientRun delay initialClient ((t, segments) # polls))) = []))"
    if pos: "0 < length segments" and b: "burst delay t (length segments) polls"
  proof -
    let ?c0 = "runTimers t initialClient"
    let ?c1 = "onPoll delay t segments ?c0"
    have c0: "?c0 = initialClient" by (simp add: runTimers_def initialClient_def)
    have first: "lastSegmentCount initialClient < length segments"
      "scheduled initialClient = []"
      using pos by (simp_all add: initialClient_def)
    from onPoll_first_arrival [OF first, of delay t]
    have s: "scheduled ?c1 = [(nextHandle initialClient, t + delay)]"
      and d: "debounceTimer ?c1 = Some (nextHandle initialClient)"
      and tr0: "triggers ?c1 = triggers initialClient"
      by (simp_all only: c0)
    have tr: "triggers ?c1 = []" using tr0 by (simp add: initialClient_def)
    have n: "lastSegmentCount ?c1 = length segments"
      using first(1) by (simp add: c0 onPoll_lastSegmentCount)
    from b n have b1: "burst delay t (lastSegmentCount ?c1) polls" by simp
    let ?end = "clientRun delay initialClient ((t, segments) # polls)"
    have run: "?end = clientRun delay ?c1 polls" by simp
    from burst_run [OF s d b1] tr n obtain h' where
      t0: "triggers ?end = []"
      and s1: "scheduled ?end = [(h', lastArrival t (length segments) polls + delay)]"
      by (auto simp only: run)
    have "triggers (runTimers horizon ?end) =
            [(h', lastArrival t (length segments) polls + delay)] \<and>
          scheduled (runTimers horizon ?end) = []"
      if "lastArrival t (length segments) polls + delay \<le> horizon" for horizon
      using runTimers_due [OF s1 that] t0 by simp
    with t0 s1 show ?thesis by blast
  qed
  then show ?thesis using onPoll_cancels [of c segments h0 delay now] by blast
qed

theorem debounce_last_timer_fires_witness:
  "burst DEBOUNCE_DELAY 5000 1 (tl rapidPolls) \<and>
   lastArrival 5000 1 (tl rapidPolls) = 5800 \<and>
   triggers (clientRun DEBOUNCE_DELAY initialClient rapidPolls) = [] \<and>
   scheduled (clientRun DEBOUNCE_DELAY initialClient rapidPolls) = [(2, 6800)] \<and>
   triggers (runTimers 7000 (clientRun DEBOUNCE_DELAY initialClient rapidPolls)) = [(2, 6800)]"
proof -
  have r: "rapidPolls = (5000, [aliceSays ''hello'']) # tl rapidPolls"
    by (simp add: rapidPolls_def)
  have b: "burst DEBOUNCE_DELAY 5000 (length [aliceSays ''hello'']) (tl rapidPolls)"
    by (simp add: rapidPolls_def DEBOUNCE_DELAY_def)
  have l: "lastArrival 5000 (length [aliceSays ''hello'']) (tl rapidPolls) = 5800"
    by (simp add: rapidPolls_def)
  have p: "0 < length [aliceSays ''hello'']" by simp
  have d: "(5800::nat) + DEBOUNCE_DELAY = 6800" by (simp add: DEBOUNCE_DELAY_def)
  from debounce_last_timer_fires
    [where segments = "[aliceSays ''hello'']" and delay = DEBOUNCE_DELAY and t = 5000
       and polls = "tl rapidPolls" and c = initialClient and ?h0.0 = 0 and now = 0]
    p b
  have "triggers (clientRun DEBOUNCE_DELAY initialClient
           ((5000, [aliceSays ''hello'']) # tl rapidPolls)) = [] \<and>
      (\<exists>h. scheduled (clientRun DEBOUNCE_DELAY initialClient
              ((5000, [aliceSays ''hello'']) # tl rapidPolls)) =
              [(h, lastArrival 5000 (length [aliceSays ''hello'']) (tl rapidPolls) + DEBOUNCE_DELAY)] \<and>
           (\<forall>horizon. lastArrival 5000 (length [aliceSays ''hello'']) (tl rapidPolls) + DEBOUNCE_DELAY
                \<le> horizon \<longrightarrow>
              triggers (runTimers horizon (clientRun DEBOUNCE_DELAY initialClient
                 ((5000, [aliceSays ''hello'']) # tl rapidPolls))) =
                [(h, lastArrival 5000 (length [aliceSays ''hello'']) (tl rapidPolls) + DEBOUNCE_DELAY)] \<and>
              scheduled (runTimers horizon (clientRun DEBOUNCE_DELAY initialClient
                 ((5000, [aliceSays ''hello'']) # tl rapidPolls))) = []))"
    by blast
  then obtain h where
    t0: "triggers (clientRun DEBOUNCE_DELAY initialClient rapidPolls) = []"
    and s: "scheduled (clientRun DEBOUNCE_DELAY initialClient rapidPolls) = [(h, 6800)]"
    and f: "\<forall>horizon. 6800 \<le> horizon \<longrightarrow>
              triggers (runTimers horizon (clientRun DEBOUNCE_DELAY initialClient rapidPolls)) =
                [(h, 6800)] \<and>
              scheduled (runTimers horizon (clientRun DEBOUNCE_DELAY initialClient rapidPolls)) = []"
    unfolding l d r [symmetric] by blast
  have "scheduled (clientRun DEBOUNCE_DELAY initialClient rapidPolls) = [(2, 6800)]"
    by code_simp
  with s have h: "h = 2" by simp
  from f have "triggers (runTimers 7000 (clientRun DEBOUNCE_DELAY initialClient rapidPolls)) =
                [(h, 6800)]" by simp
  with t0 s h b l show ?thesis by simp
qed

section \<open>Each segment once\<close>

lemma growing_prefix_last: "growing (p # polls) \<Longrightarrow> prefix p (last (p # polls))"
proof (induction polls arbitrary: p)
  case Nil
  then show ?case by simp
next
  case (Cons q polls)
  then have "prefix p q" and "prefix q (last (q # polls))" by simp_all
  then have "prefix p (last (q # polls))" by (rule prefix_order.trans)
  then show ?case by simp
qed

lemma drop_prefix_split:
  assumes "prefix cur p" and "prefix p l"
  shows "drop (length cur) l = drop (length cur) p @ drop (length p) l"
proof -
  from assms obtain d r where p: "p = cur @ d" and l: "l = p @ r"
    by (auto simp: prefix_def)
  then show ?thesis by simp
qed

subsection \<open>The count-based cursor of the client\<close>

lemma clientPolls_concat:
  "growing (cur # map snd polls) \<Longrightarrow> lastSegmentCount c = length cur \<Longrightarrow>
   concat (clientPolls delay c polls) = drop (length cur) (last (cur # map snd polls))"
proof (induction polls arbitrary: c cur)
  case Nil
  then show ?case by simp
next
  case (Cons poll polls)
  obtain now p where poll: "poll = (now, p)" by (cases poll)
  from Cons.prems(1) poll have pre: "prefix cur p" and g: "growing (p # map snd polls)"
    by simp_all
  let ?c = "onPoll delay now p (runTimers now c)"
  have len: "length cur \<le> length p" using pre by (rule prefix_length_le)
  have n: "lastSegmentCount ?c = length p"
    using Cons.prems(2) len by (simp add: onPoll_lastSegmentCount)
  have e: "clientNewSegments (runTimers now c) p = drop (length cur) p"
    using Cons.prems(2) len by (simp add: clientNewSegments_def)
  have "concat (clientPolls delay ?c polls) = drop (length p) (last (p # map snd polls))"
    using Cons.IH [OF g n] .
  with e poll have "concat (clientPolls delay c (poll # polls)) =
      drop (length cur) p @ drop (length p) (last (p # map snd polls))"
    by simp
  also have "\<dots> = drop (length cur) (last (p # map snd polls))"
    using drop_prefix_split [OF pre growing_prefix_last [OF g]] by simp
  finally show ?case using poll by simp
qed

lemma clientPolls_exactly_once:
  assumes "growing (map snd polls)" and "polls \<noteq> []"
  shows "concat (clientPolls delay initialClient polls) = snd (last polls)"
proof -
  have g: "growing ([] # map snd polls)" using assms by (cases polls) simp_all
  have "lastSegmentCount initialClient = length ([] :: client_segment list)"
    by (simp add: initialClient_def)
  from clientPolls_concat [OF g this] assms(2) show ?thesis by (simp add: last_map)
qed

subsection \<open>The time-based cursor of the agent\<close>

lemma newSegments_append:
  "newSegments t (xs @ ys) = newSegments t xs @ newSegments t ys"
  by (simp add: newSegments_def)

lemma newSegments_nil_iff:
  "(newSegments t xs = []) =
   (\<forall>seg \<in> set xs. trim (seg_text seg) \<noteq> [] \<longrightarrow> seg_end seg \<le> t)"
  by (auto simp: newSegments_def filter_empty_conv not_less)

lemma cursor_after_poll:
  "newSegments (lastProcessedTime (processNewSegments e a p)) p = []"
proof (cases "newSegments (lastProcessedTime a) p = []")
  case True
  then show ?thesis by (simp add: processNewSegments_none)
next
  case False
  let ?new = "newSegments (lastProcessedTime a) p"
  let ?t = "lastProcessedTime (processNewSegments e a p)"
  obtain seg0 segs0 where c: "?new = seg0 # segs0" using False by (cases ?new) auto
  have t: "?t = Max (seg_end ` set ?new)"
    using c by (simp add: processNewSegments_lastProcessedTime mathMax_Max)
  have "seg_end seg \<le> ?t" if "seg \<in> set p" and "trim (seg_text seg) \<noteq> []" for seg
  proof (cases "lastProcessedTime a < seg_end seg")
    case True
    with that have "seg \<in> set ?new" by (simp add: newSegments_def)
    then show ?thesis unfolding t by simp
  next
    case old: False
    from False obtain s where s: "s \<in> set ?new" by (cases ?new) auto
    then have "lastProcessedTime a < seg_end s" by (simp add: newSegments_def)
    moreover from s have "seg_end s \<le> ?t" unfolding t by simp
    ultimately show ?thesis using old by simp
  qed
  then show ?thesis by (simp add: newSegments_nil_iff)
qed

lemma agentPolls_subseq:
  "growing (cur # polls) \<Longrightarrow> newSegments (lastProcessedTime a) cur = [] \<Longrightarrow>
   subseq (concat (agentPolls e a polls)) (drop (length cur) (last (cur # polls)))"
proof (induction polls arbitrary: a cur)
  case Nil
  then show ?case by simp
next
  case (Cons p polls)
  from Cons.prems(1) have pre: "prefix cur p" and g: "growing (p # polls)" by simp_all
  from pre obtain d where d: "p = cur @ d" by (auto simp: prefix_def)
  have e: "newSegments (lastProcessedTime a) p = newSegments (lastProcessedTime a) d"
    using Cons.prems(2) d by (simp add: newSegments_append)
  have "subseq (newSegments (lastProcessedTime a) d) d"
    by (simp add: newSegments_def)
  then have first: "subseq (newSegments (lastProcessedTime a) p) (drop (length cur) p)"
    using e d by simp
  have rest: "subseq (concat (agentPolls e (processNewSegments e a p) polls))
                (drop (length p) (last (p # polls)))"
    using Cons.IH [OF g cursor_after_poll] .
  have "subseq (newSegments (lastProcessedTime a) p @
                concat (agentPolls e (processNewSegments e a p) polls))
               (drop (length cur) p @ drop (length p) (last (p # polls)))"
    using first rest by (rule list_emb_append_mono)
  then show ?case
    using drop_prefix_split [OF pre growing_prefix_last [OF g]] by simp
qed

lemma agentPolls_at_most_once:
  assumes "growing polls" and "polls \<noteq> []"
  shows "subseq (concat (agentPolls e a polls)) (last polls)"
proof -
  have g: "growing ([] # polls)" using assms by (cases polls) simp_all
  have "newSegments (lastProcessedTime a) [] = []" by (simp add: newSegments_def)
  from agentPolls_subseq [OF g this] assms(2) show ?thesis by simp
qed

lemma agentPolls_ordered:
  "growing (cur # polls) \<Longrightarrow> newSegments (lastProcessedTime a) cur = [] \<Longrightarrow>
   sorted_wrt (<) (map seg_end (last (cur # polls))) \<Longrightarrow>
   \<forall>seg \<in> set (drop (length cur) (last (cur # polls))). lastProcessedTime a < seg_end seg \<Longrightarrow>
   concat (agentPolls e a polls) =
     filter (\<lambda>seg. trim (seg_text seg) \<noteq> []) (drop (length cur) (last (cur # polls)))"
proof (induction polls arbitrary: a cur)
  case Nil
  then show ?case by simp
next
  case (Cons p polls)
  let ?l = "last (p # polls)"
  let ?a = "processNewSegments e a p"
  from Cons.prems(1) have pre: "prefix cur p" and g: "growing (p # polls)" by simp_all
  from pre obtain d where d: "p = cur @ d" by (auto simp: prefix_def)
  from growing_prefix_last [OF g] obtain r where r: "?l = p @ r" by (auto simp: prefix_def)
  have split: "drop (length cur) ?l = d @ r" "drop (length p) ?l = r"
    using d r by simp_all
  from Cons.prems(4) split have fresh: "\<forall>seg \<in> set d. lastProcessedTime a < seg_end seg"
    and later: "\<forall>seg \<in> set r. lastProcessedTime a < seg_end seg" by simp_all
  have e: "newSegments (lastProcessedTime a) p = filter (\<lambda>seg. trim (seg_text seg) \<noteq> []) d"
  proof -
    have "newSegments (lastProcessedTime a) p = newSegments (lastProcessedTime a) d"
      using Cons.prems(2) d by (simp add: newSegments_append)
    also have "\<dots> = filter (\<lambda>seg. trim (seg_text seg) \<noteq> []) d"
      using fresh unfolding newSegments_def by (intro filter_cong) auto
    finally show ?thesis .
  qed
  from Cons.prems(3) r d have order: "\<forall>x \<in> set d. \<forall>y \<in> set r. seg_end x < seg_end y"
    by (simp add: sorted_wrt_append)
  have next_fresh: "\<forall>seg \<in> set (drop (length p) ?l). lastProcessedTime ?a < seg_end seg"
  proof (cases "newSegments (lastProcessedTime a) p = []")
    case True
    then have "?a = a" by (rule processNewSegments_none)
    with later split show ?thesis by simp
  next
    case False
    let ?new = "newSegments (lastProcessedTime a) p"
    obtain seg0 segs0 where c: "?new = seg0 # segs0" using False by (cases ?new) auto
    have t: "lastProcessedTime ?a = Max (seg_end ` set ?new)"
      using c by (simp add: processNewSegments_lastProcessedTime mathMax_Max)
    have "Max (seg_end ` set ?new) \<in> seg_end ` set ?new"
      using False by (intro Max_in) auto
    then obtain s where s: "s \<in> set ?new" and m: "Max (seg_end ` set ?new) = seg_end s"
      by auto
    from s e have "s \<in> set d" by simp
    with order m t have "\<forall>y \<in> set r. lastProcessedTime ?a < seg_end y" by simp
    with split show ?thesis by simp
  qed
  have sorted: "sorted_wrt (<) (map seg_end ?l)" using Cons.prems(3) by simp
  have "concat (agentPolls e ?a polls) = filter (\<lambda>seg. trim (seg_text seg) \<noteq> []) r"
    using Cons.IH [OF g cursor_after_poll sorted next_fresh] split by simp
  with e split show ?case by simp
qed

lemma agentPolls_exactly_once:
  assumes "growing polls" and "polls \<noteq> []"
    and "sorted_wrt (<) (map seg_end (last polls))"
    and "\<forall>seg \<in> set (last polls). lastProcessedTime a < seg_end seg"
  shows "concat (agentPolls e a polls) = filter (\<lambda>seg. trim (seg_text seg) \<noteq> []) (last polls)"
proof -
  have g: "growing ([] # polls)" using assms by (cases polls) simp_all
  have n: "newSegments (lastProcessedTime a) [] = []" by (simp add: newSegments_def)
  from agentPolls_ordered [OF g n] assms show ?thesis by simp
qed

lemma processNewSegments_cursor_mono:
  "lastProcessedTime a \<le> lastProcessedTime (processNewSegments e a p)"
proof (cases "newSegments (lastProcessedTime a) p")
  case Nil
  then show ?thesis by (simp add: processNewSegments_none)
next
  case (Cons seg segs)
  then have "seg \<in> set (newSegments (lastProcessedTime a) p)" by simp
  then have "lastProcessedTime a < seg_end seg" by (simp add: newSegments_def)
  moreover have "seg_end seg \<le> Max (set (seg_end seg # map seg_end segs))"
    by (intro Max_ge) simp_all
  ultimately have "lastProcessedTime a \<le> Max (set (seg_end seg # map seg_end segs))"
    by linarith
  moreover have "lastProcessedTime (processNewSegments e a p) =
                 Max (set (seg_end seg # map seg_end segs))"
    using Cons by (simp only: processNewSegments_lastProcessedTime mathMax_Max list.case)
  ultimately show ?thesis by simp
qed

lemma agentAfter_cursor_mono:
  "lastProcessedTime a \<le> lastProcessedTime (agentAfter e a polls)"
proof (induction polls arbitrary: a)
  case Nil
  show ?case by simp
next
  case (Cons p polls)
  have "lastProcessedTime a \<le> lastProcessedTime (processNewSegments e a p)"
    by (rule processNewSegments_cursor_mono)
  also have "\<dots> \<le> lastProcessedTime (agentAfter e (processNewSegments e a p) polls)"
    by (rule Cons.IH)
  finally show ?case by simp
qed

lemma agentPolls_append:
  "agentPolls e a (polls1 @ polls2) =
   agentPolls e a polls1 @ agentPolls e (agentAfter e a polls1) polls2"
  by (induction polls1 arbitrary: a) simp_all

lemma length_agentPolls [simp]: "length (agentPolls e a polls) = length polls"
  by (induction polls arbitrary: a) simp_all

lemma agentPolls_beyond_cursor:
  "seg \<in> set (concat (agentPolls e a polls)) \<Longrightarrow>
   lastProcessedTime a < seg_end seg \<and> trim (seg_text seg) \<noteq> []"
proof (induction polls arbitrary: a)
  case Nil
  then show ?case by simp
next
  case (Cons p polls)
  from Cons.prems consider
    "seg \<in> set (newSegments (lastProcessedTime a) p)"
    | "seg \<in> set (concat (agentPolls e (processNewSegments e a p) polls))"
    by auto
  then show ?case
  proof cases
    case 1
    then show ?thesis by (simp add: newSegments_def)
  next
    case 2
    from Cons.IH [OF 2] processNewSegments_cursor_mono [of a e p] show ?thesis by simp
  qed
qed

lemma agentPolls_later_beyond_cursor:
  "seg \<in> set (concat (drop (length polls1) (agentPolls e a (polls1 @ polls2)))) \<Longrightarrow>
   lastProcessedTime (agentAfter e a polls1) < seg_end seg \<and> trim (seg_text seg) \<noteq> []"
  using agentPolls_beyond_cursor [of seg e "agentAfter e a polls1" polls2]
  by (simp add: agentPolls_append)

text \<open>
  C7, as amended. Over a polling history in which the segment list only grows at its end,
  the count-based cursor of the client emits the segments of the last list, each once and
  in order. The time-based cursor of the agent emits a subsequence of the last list: no
  segment twice, none again once the cursor has passed it. It emits every segment with
  non-empty trimmed text exactly once when the end times of the list increase strictly and
  lie after the cursor the session starts with. And at every point of a session, what the
  polls after it emit has non-empty trimmed text and ends after the cursor reached at
  that point: a segment with blank text, or one that is appended with an end time not
  greater than the cursor, is never emitted.
\<close>

theorem cursors_emit_once:
  "(growing (map snd cpolls) \<and> cpolls \<noteq> [] \<longrightarrow>
      concat (clientPolls delay initialClient cpolls) = snd (last cpolls)) \<and>
   (growing polls \<and> polls \<noteq> [] \<longrightarrow>
      subseq (concat (agentPolls e a polls)) (last polls)) \<and>
   (growing polls \<and> polls \<noteq> [] \<and> sorted_wrt (<) (map seg_end (last polls)) \<and>
    (\<forall>seg \<in> set (last polls). lastProcessedTime a < seg_end seg) \<longrightarrow>
      concat (agentPolls e a polls) =
        filter (\<lambda>seg. trim (seg_text seg) \<noteq> []) (last polls)) \<and>
   (\<forall>seg \<in> set (concat (drop (length polls1) (agentPolls e a (polls1 @ polls2)))).
      lastProcessedTime (agentAfter e a polls1) < seg_end seg \<and> trim (seg_text seg) \<noteq> []) \<and>
   lastProcessedTime a \<le> lastProcessedTime (agentAfter e a polls1)"
  using clientPolls_exactly_once [of cpolls delay] agentPolls_at_most_once [of polls e a]
    agentPolls_exactly_once [of polls a e] agentPolls_later_beyond_cursor [of _ polls1 e a polls2]
    agentAfter_cursor_mono [of a e polls1]
  by blast

theorem cursors_emit_once_witness:
  "growing (map snd rapidPolls) \<and> growing orderedPolls \<and>
   concat (clientPolls DEBOUNCE_DELAY initialClient rapidPolls) =
     [aliceSays ''hello'', aliceSays ''Bot'', aliceSays ''are you there''] \<and>
   subseq (concat (agentPolls plainEnv freshAgent orderedPolls)) [segA, segC] \<and>
   concat (agentPolls plainEnv freshAgent orderedPolls) = [segA, segC] \<and>
   trim (seg_text segBlank) = [] \<and>
   segBlank \<notin> set (concat (agentPolls plainEnv freshAgent blankPolls)) \<and>
   lastProcessedTime (agentAfter plainEnv freshAgent [[segA]]) = 5 \<and>
   segTie \<notin> set (concat (drop 1 (agentPolls plainEnv freshAgent tiePolls)))"
proof -
  have g1: "growing (map snd rapidPolls)" "rapidPolls \<noteq> []"
    by (simp_all add: rapidPolls_def)
  have l1: "snd (last rapidPolls) =
     [aliceSays ''hello'', aliceSays ''Bot'', aliceSays ''are you there'']"
    by (simp add: rapidPolls_def)
  have g2: "growing orderedPolls" "orderedPolls \<noteq> []" by (simp_all add: orderedPolls_def)
  have l2: "last orderedPolls = [segA, segC]" by (simp add: orderedPolls_def)
  have s: "sorted_wrt (<) (map seg_end (last orderedPolls))"
    by (simp add: orderedPolls_def segA_def segC_def)
  have f: "\<forall>seg \<in> set (last orderedPolls). lastProcessedTime freshAgent < seg_end seg"
    by (simp add: orderedPolls_def segA_def segC_def freshAgent_def)
  have k: "filter (\<lambda>seg. trim (seg_text seg) \<noteq> []) [segA, segC] = [segA, segC]"
    by (simp add: segA_def segC_def trim_def isWhiteSpace_def)
  note T = cursors_emit_once [where cpolls = rapidPolls and delay = DEBOUNCE_DELAY
      and polls = orderedPolls and e = plainEnv and a = freshAgent
      and ?polls1.0 = "[]" and ?polls2.0 = blankPolls]
  note U = cursors_emit_once [where cpolls = rapidPolls and delay = DEBOUNCE_DELAY
      and polls = orderedPolls and e = plainEnv and a = freshAgent
      and ?polls1.0 = "[[segA]]" and ?polls2.0 = "[[segA, segTie]]"]
  from T g1 l1 have one: "concat (clientPolls DEBOUNCE_DELAY initialClient rapidPolls) =
     [aliceSays ''hello'', aliceSays ''Bot'', aliceSays ''are you there'']" by simp
  from T g2 l2 have two: "subseq (concat (agentPolls plainEnv freshAgent orderedPolls)) [segA, segC]"
    by simp
  from T g2 s f have "concat (agentPolls plainEnv freshAgent orderedPolls) =
        filter (\<lambda>seg. trim (seg_text seg) \<noteq> []) (last orderedPolls)" by blast
  with l2 k have three: "concat (agentPolls plainEnv freshAgent orderedPolls) = [segA, segC]"
    by simp
  have b: "trim (seg_text segBlank) = []"
    by (simp add: segBlank_def trim_def isWhiteSpace_def)
  from T have "\<forall>seg \<in> set (concat (agentPolls plainEnv freshAgent blankPolls)).
      trim (seg_text seg) \<noteq> []" by simp
  with b have four: "segBlank \<notin> set (concat (agentPolls plainEnv freshAgent blankPolls))"
    by blast
  have c: "lastProcessedTime (agentAfter plainEnv freshAgent [[segA]]) = 5" by code_simp
  have t: "tiePolls = [[segA]] @ [[segA, segTie]]" by (simp add: tiePolls_def)
  from U have "\<forall>seg \<in> set (concat (drop (length [[segA]])
         (agentPolls plainEnv freshAgent ([[segA]] @ [[segA, segTie]])))).
      lastProcessedTime (agentAfter plainEnv freshAgent [[segA]]) < seg_end seg"
    by blast
  then have "\<forall>seg \<in> set (concat (drop 1 (agentPolls plainEnv freshAgent tiePolls))).
      5 < seg_end seg"
    unfolding c t [symmetric] by simp
  moreover have "\<not> 5 < seg_end segTie" by (simp add: segTie_def)
  ultimately have five: "segTie \<notin> set (concat (drop 1 (agentPolls plainEnv freshAgent tiePolls)))"
    by blast
  from g1 g2 one two three b four c five show ?thesis by simp
qed

text \<open>
  C7 as stated fails for the time-based cursor, on transcripts that are ordered by end
  time: the list grows by a segment that ends when the one before it ended, or by a
  segment with blank text, and no poll ever emits it.
\<close>

theorem agentPolls_late_segment_counterexample:
  "growing tiePolls \<and> last tiePolls = [segA, segTie] \<and>
   sorted (map seg_end (last tiePolls)) \<and>
   lastProcessedTime freshAgent < seg_end segTie \<and> trim (seg_text segTie) \<noteq> [] \<and>
   concat (agentPolls plainEnv freshAgent tiePolls) = [segA] \<and>
   growing blankPolls \<and> last blankPolls = [segA, segBlank] \<and>
   sorted (map seg_end (last blankPolls)) \<and>
   concat (agentPolls plainEnv freshAgent blankPolls) = [segA]"
proof -
  have "growing tiePolls" "last tiePolls = [segA, segTie]" by (simp_all add: tiePolls_def)
  moreover have "sorted (map seg_end (last tiePolls))"
    by (simp add: tiePolls_def segA_def segTie_def)
  moreover have "lastProcessedTime freshAgent < seg_end segTie"
    by (simp add: segTie_def freshAgent_def)
  moreover have "trim (seg_text segTie) \<noteq> []"
    by (simp add: segTie_def trim_def isWhiteSpace_def)
  moreover have "concat (agentPolls plainEnv freshAgent tiePolls) = [segA]" by code_simp
  moreover have "growing blankPolls" "last blankPolls = [segA, segBlank]"
    by (simp_all add: blankPolls_def)
  moreover have "sorted (map seg_end (last blankPolls))"
    by (simp add: blankPolls_def segA_def segBlank_def)
  moreover have "concat (agentPolls plainEnv freshAgent blankPolls) = [segA]" by code_simp
  ultimately show ?thesis by blast
qed

end
